theory Spec2Isabelle
  imports Main "HOL-Library.Monad_Syntax" "HOL-Library.Word"
begin

section \<open>Constants of a2alloc.c\<close>

definition PAGE_SIZE :: nat where "PAGE_SIZE = 4096"
definition CACHELINE_SIZE :: nat where "CACHELINE_SIZE = 64"
definition NUM_CLASS :: nat where "NUM_CLASS = 9"
definition BASE_CLASS :: nat where "BASE_CLASS = 3"

section \<open>Size classification\<close>

text \<open>
  \<^verbatim>\<open>get_block_class_index\<close>: the loop \<^verbatim>\<open>for (i = 0; i < NUM_CLASS; i++)\<close> returns the first
  \<open>i\<close> with \<^verbatim>\<open>(1 << (i + BASE_CLASS)) >= sz\<close>, and \<open>-1\<close> after the loop. The shift amount is at
  most 11, so the shifted \<^verbatim>\<open>int\<close> is the power of two and its conversion to \<^verbatim>\<open>size_t\<close>
  keeps the value.
\<close>

function get_block_class_index_loop :: "nat \<Rightarrow> nat \<Rightarrow> int" where
  "get_block_class_index_loop i sz =
     (if i < NUM_CLASS then
        (if 2 ^ (i + BASE_CLASS) \<ge> sz then int i
         else get_block_class_index_loop (i + 1) sz)
      else - 1)"
  by pat_completeness auto
termination
  by (relation "measure (\<lambda>(i, sz). NUM_CLASS - i)") auto

declare get_block_class_index_loop.simps [simp del]

definition get_block_class_index :: "nat \<Rightarrow> int" where
  "get_block_class_index sz = get_block_class_index_loop 0 sz"

section \<open>Memory\<close>

text \<open>
  The allocator works on raw bytes: list links, counters and page headers share the same
  addresses, and the source reads some of them at another width than it wrote them. Memory is
  therefore a function from addresses to bytes, integers are stored little-endian (x86-64),
  and every access outside the segment obtained from the substrate, \<open>[dseg_lo, dseg_hi)\<close>, is
  undefined behaviour in C: the model returns \<open>None\<close> there, as it does for any other fault.
\<close>

type_synonym byte = "8 word"

record alloc_state =
  mem :: "nat \<Rightarrow> byte"
  dseg_lo :: nat
  dseg_hi :: nat
  dseg_max :: nat
  big_list :: nat
  new_free_page_refs :: nat
  reusable_page_refs :: nat
  processor_locks_base :: nat
  num_processors :: int

text \<open>The environment of the allocator: what the operating system answers.\<close>

record substrate_env =
  env_heap_base :: nat
  env_heap_size :: nat
  env_num_processors :: int

primrec load_le :: "(nat \<Rightarrow> byte) \<Rightarrow> nat \<Rightarrow> nat \<Rightarrow> nat" where
  "load_le m a 0 = 0"
| "load_le m a (Suc n) = unat (m a) + 256 * load_le m (Suc a) n"

definition store_le :: "(nat \<Rightarrow> byte) \<Rightarrow> nat \<Rightarrow> nat \<Rightarrow> nat \<Rightarrow> (nat \<Rightarrow> byte)" where
  "store_le m a n v = (\<lambda>x. if a \<le> x \<and> x < a + n then of_nat (v div 256 ^ (x - a)) else m x)"

definition zero_bytes :: "(nat \<Rightarrow> byte) \<Rightarrow> nat \<Rightarrow> nat \<Rightarrow> (nat \<Rightarrow> byte)" where
  "zero_bytes m a n = (\<lambda>x. if a \<le> x \<and> x < a + n then 0 else m x)"

definition in_heap :: "alloc_state \<Rightarrow> nat \<Rightarrow> nat \<Rightarrow> bool" where
  "in_heap s a n = (dseg_lo s \<le> a \<and> a + n \<le> dseg_hi s)"

text \<open>A C \<^verbatim>\<open>int\<close> is 32 bits, two's complement; a pointer and \<^verbatim>\<open>size_t\<close> are 64 bits.\<close>

definition int32_of_nat :: "nat \<Rightarrow> int" where
  "int32_of_nat n = (if n mod 2 ^ 32 < 2 ^ 31 then int (n mod 2 ^ 32) else int (n mod 2 ^ 32) - 2 ^ 32)"

definition size_t_of_int :: "int \<Rightarrow> nat" where
  "size_t_of_int i = nat (i mod 2 ^ 64)"

definition ptr_add :: "nat \<Rightarrow> int \<Rightarrow> nat" where
  "ptr_add p i = nat ((int p + i) mod 2 ^ 64)"

definition load32 :: "alloc_state \<Rightarrow> nat \<Rightarrow> int option" where
  "load32 s a = (if in_heap s a 4 then Some (int32_of_nat (load_le (mem s) a 4)) else None)"

definition load64 :: "alloc_state \<Rightarrow> nat \<Rightarrow> nat option" where
  "load64 s a = (if in_heap s a 8 then Some (load_le (mem s) a 8) else None)"

definition store8 :: "alloc_state \<Rightarrow> nat \<Rightarrow> int \<Rightarrow> alloc_state option" where
  "store8 s a v =
     (if in_heap s a 1 then Some (s\<lparr>mem := store_le (mem s) a 1 (nat (v mod 2 ^ 8))\<rparr>) else None)"

definition store32 :: "alloc_state \<Rightarrow> nat \<Rightarrow> int \<Rightarrow> alloc_state option" where
  "store32 s a v =
     (if in_heap s a 4 then Some (s\<lparr>mem := store_le (mem s) a 4 (nat (v mod 2 ^ 32))\<rparr>) else None)"

definition store64 :: "alloc_state \<Rightarrow> nat \<Rightarrow> nat \<Rightarrow> alloc_state option" where
  "store64 s a v =
     (if in_heap s a 8 then Some (s\<lparr>mem := store_le (mem s) a 8 v\<rparr>) else None)"

definition bzero :: "alloc_state \<Rightarrow> nat \<Rightarrow> nat \<Rightarrow> alloc_state option" where
  "bzero s a n =
     (if n = 0 \<or> in_heap s a n then Some (s\<lparr>mem := zero_bytes (mem s) a n\<rparr>) else None)"

text \<open>C division and remainder of \<^verbatim>\<open>int\<close> truncate towards zero; a zero divisor traps.\<close>

definition c_div :: "int \<Rightarrow> int \<Rightarrow> int" where
  "c_div a b = sgn a * sgn b * (\<bar>a\<bar> div \<bar>b\<bar>)"

definition c_mod :: "int \<Rightarrow> int \<Rightarrow> int option" where
  "c_mod a b = (if b = 0 then None else Some (a - b * c_div a b))"

text \<open>\<^verbatim>\<open>1 << n\<close> on \<^verbatim>\<open>int\<close>: defined for \<open>0 \<le> n < 31\<close> only.\<close>

definition shl1 :: "int \<Rightarrow> int option" where
  "shl1 n = (if 0 \<le> n \<and> n < 31 then Some (2 ^ nat n) else None)"

section \<open>The heap substrate\<close>

text \<open>
  Modelled from the spec: \<^verbatim>\<open>memlib.h\<close> (\<^verbatim>\<open>mem_init\<close>, \<^verbatim>\<open>mem_sbrk\<close>, \<^verbatim>\<open>dseg_lo\<close>, \<^verbatim>\<open>dseg_hi\<close>) is not
  among the sources. The spec's substrate contract: \<^verbatim>\<open>substrate_init() \<rightarrow> 0 | -1\<close>;
  \<^verbatim>\<open>substrate_sbrk(bytes) \<rightarrow> pointer | NULL\<close>, monotonic, never returning overlapping regions,
  staying within the fixed region; \<open>lo\<close> and \<open>hi\<close> the inclusive and exclusive bounds of the heap,
  stable after initialisation. The environment gives the base address of the region
  (0 when the operating system refuses it) and its size.
\<close>

definition mem_init :: "substrate_env \<Rightarrow> alloc_state \<Rightarrow> alloc_state \<times> int" where
  "mem_init env s =
     (if env_heap_base env = 0 then (s, - 1)
      else (s\<lparr>dseg_lo := env_heap_base env, dseg_hi := env_heap_base env,
               dseg_max := env_heap_base env + env_heap_size env\<rparr>, 0))"

definition mem_sbrk :: "alloc_state \<Rightarrow> int \<Rightarrow> alloc_state \<times> nat" where
  "mem_sbrk s incr =
     (if incr < 0 \<or> int (dseg_hi s) + incr > int (dseg_max s) then (s, 0)
      else (s\<lparr>dseg_hi := dseg_hi s + nat incr\<rparr>, dseg_hi s))"

section \<open>The large-object allocator\<close>

text \<open>
  \<^verbatim>\<open>struct big_freelist { int num_pages; struct big_freelist *next; }\<close>: \<open>num_pages\<close> at offset 0,
  \<open>next\<close> at offset 8. The loop of \<^verbatim>\<open>big_mm_malloc\<close> over the big freelist; it returns the
  state and \<open>result\<close>, \<open>0\<close> (NULL) when the list has no entry of at least \<open>num_pages\<close> pages. A
  cyclic list makes the C loop run forever: the value is \<open>None\<close>.
\<close>

partial_function (option) big_mm_malloc_walk ::
  "alloc_state \<Rightarrow> int \<Rightarrow> nat \<Rightarrow> nat \<Rightarrow> (alloc_state \<times> nat) option" where
  "big_mm_malloc_walk s num_pages prior cur =
     (if cur = 0 then Some (s, 0)
      else do {
        np \<leftarrow> load32 s cur;
        if np > num_pages then do {
          s1 \<leftarrow> store32 s cur (np - num_pages);
          np1 \<leftarrow> load32 s1 cur;
          let header_ptr = ptr_add cur (np1 * int PAGE_SIZE);
          s2 \<leftarrow> store32 s1 header_ptr num_pages;
          Some (s2, ptr_add header_ptr 4)
        }
        else if np = num_pages then do {
          nx \<leftarrow> load64 s (cur + 8);
          s1 \<leftarrow> (if prior \<noteq> 0 then store64 s (prior + 8) nx else Some (s\<lparr>big_list := nx\<rparr>));
          Some (s1, ptr_add cur 4)
        }
        else do {
          nx \<leftarrow> load64 s (cur + 8);
          big_mm_malloc_walk s num_pages cur nx
        }
      })"

definition big_mm_malloc :: "alloc_state \<Rightarrow> nat \<Rightarrow> (alloc_state \<times> nat) option" where
  "big_mm_malloc s sz =
     (let num_pages = int32_of_nat (((sz + PAGE_SIZE - 1) mod 2 ^ 64) div PAGE_SIZE) in
      do {
        (s1, result) \<leftarrow> big_mm_malloc_walk s num_pages 0 (big_list s);
        if result = 0 then
          (case mem_sbrk s1 (num_pages * int PAGE_SIZE) of
             (s2, header_ptr) \<Rightarrow>
               if header_ptr \<noteq> 0 then do {
                 s3 \<leftarrow> store32 s2 header_ptr (- 1);
                 s4 \<leftarrow> store32 s3 (header_ptr + 4) num_pages;
                 Some (s4, header_ptr + 8)
               }
               else Some (s2, 0))
        else Some (s1, result)
      })"

definition big_mm_free :: "alloc_state \<Rightarrow> nat \<Rightarrow> alloc_state option" where
  "big_mm_free s ptr =
     (let newly_freed = ptr_add ptr (- 4) in
      do {
        s1 \<leftarrow> store64 s (newly_freed + 8) (big_list s);
        Some (s1\<lparr>big_list := newly_freed\<rparr>)
      })"

section \<open>The arena directory\<close>

text \<open>
  The directory of list heads starts at \<^verbatim>\<open>dseg_lo\<close>; the slot of \<open>(processor, class)\<close> is at byte
  offset \<open>processor * 8 * NUM_CLASS + class * 8\<close>, computed in \<^verbatim>\<open>size_t\<close>.
\<close>

definition pageref_slot :: "alloc_state \<Rightarrow> int \<Rightarrow> int \<Rightarrow> nat" where
  "pageref_slot s processor_index block_class_index =
     (dseg_lo s + size_t_of_int (processor_index * 8 * int NUM_CLASS)
        + size_t_of_int (block_class_index * 8)) mod 2 ^ 64"

definition pageref_head :: "alloc_state \<Rightarrow> int \<Rightarrow> int \<Rightarrow> nat option" where
  "pageref_head s processor_index block_class_index =
     load64 s (pageref_slot s processor_index block_class_index)"

definition set_pageref_head :: "alloc_state \<Rightarrow> int \<Rightarrow> int \<Rightarrow> nat \<Rightarrow> alloc_state option" where
  "set_pageref_head s processor_index block_class_index address =
     store64 s (pageref_slot s processor_index block_class_index) address"

definition get_page_head :: "alloc_state \<Rightarrow> nat \<Rightarrow> nat" where
  "get_page_head s address =
     ptr_add (dseg_lo s) (c_div (int address - int (dseg_lo s)) (int PAGE_SIZE) * int PAGE_SIZE)"

section \<open>The page-ref pool and the subpage allocator\<close>

text \<open>
  \<^verbatim>\<open>struct pageref { struct pageref *next; struct freelist *freelist; char *freelist_base;
  int num_free; }\<close>: \<open>next\<close> at offset 0, \<open>freelist\<close> at 8, \<open>freelist_base\<close> at 16, \<open>num_free\<close> at 24.
  \<^verbatim>\<open>struct freelist { struct freelist *next; }\<close>: \<open>next\<close> at offset 0.
\<close>

text \<open>The loop that fills a fresh metadata page with free page-refs (lines 271-276).\<close>

function carve_page_refs :: "alloc_state \<Rightarrow> nat \<Rightarrow> nat \<Rightarrow> alloc_state option" where
  "carve_page_refs s page_ref i =
     (if i < PAGE_SIZE then do {
        let tmp = page_ref + i;
        s1 \<leftarrow> store64 s tmp (new_free_page_refs s);
        carve_page_refs (s1\<lparr>new_free_page_refs := tmp\<rparr>) page_ref (i + CACHELINE_SIZE)
      }
      else Some s)"
  by pat_completeness auto
termination
  by (relation "measure (\<lambda>(s, page_ref, i). PAGE_SIZE - i)")
     (auto simp: PAGE_SIZE_def CACHELINE_SIZE_def)

declare carve_page_refs.simps [simp del]

text \<open>The loop that chains every slot of the page onto the page-ref's freelist (lines 309-315).\<close>

function build_freelist :: "alloc_state \<Rightarrow> nat \<Rightarrow> nat \<Rightarrow> nat \<Rightarrow> nat \<Rightarrow> alloc_state option" where
  "build_freelist s page_ref freelist_base_address step i =
     (if i < PAGE_SIZE \<and> 0 < step then do {
        let free_list_tmp = freelist_base_address + i;
        fl \<leftarrow> load64 s (page_ref + 8);
        s1 \<leftarrow> store64 s free_list_tmp fl;
        s2 \<leftarrow> store64 s1 (page_ref + 8) free_list_tmp;
        nf \<leftarrow> load32 s2 (page_ref + 24);
        s3 \<leftarrow> store32 s2 (page_ref + 24) (nf + 1);
        build_freelist s3 page_ref freelist_base_address step (i + step)
      }
      else Some s)"
  by pat_completeness auto
termination
  by (relation "measure (\<lambda>(s, page_ref, fba, step, i). PAGE_SIZE - i)") auto

declare build_freelist.simps [simp del]

text \<open>
  Lines 304-319 of \<^verbatim>\<open>allocate_pageref\<close>: empty the page-ref's freelist, chain the slots of the
  page, and write the processor and the class at the page base, one \<^verbatim>\<open>char\<close> each.
\<close>

definition fill_page :: "alloc_state \<Rightarrow> nat \<Rightarrow> nat \<Rightarrow> int \<Rightarrow> int \<Rightarrow> alloc_state option" where
  "fill_page s page_ref freelist_base_address processor_index block_class_index =
     do {
       s1 \<leftarrow> store64 s (page_ref + 8) 0;
       s2 \<leftarrow> store32 s1 (page_ref + 24) 0;
       step \<leftarrow> shl1 (block_class_index + int BASE_CLASS);
       s3 \<leftarrow> build_freelist s2 page_ref freelist_base_address (nat step) 0;
       fb1 \<leftarrow> load64 s3 (page_ref + 16);
       s4 \<leftarrow> store8 s3 fb1 processor_index;
       fb2 \<leftarrow> load64 s4 (page_ref + 16);
       store8 s4 (fb2 + 4) block_class_index
     }"

definition allocate_pageref :: "alloc_state \<Rightarrow> int \<Rightarrow> int \<Rightarrow> (alloc_state \<times> nat) option" where
  "allocate_pageref s processor_index block_class_index =
     do {
       (s1, page_ref, create_freelist) \<leftarrow>
         (if reusable_page_refs s \<noteq> 0 then do {
            nx \<leftarrow> load64 s (reusable_page_refs s);
            Some (s\<lparr>reusable_page_refs := nx\<rparr>, reusable_page_refs s, False)
          }
          else if new_free_page_refs s = 0 then
            (case mem_sbrk s (int PAGE_SIZE) of
               (sa, page_ref) \<Rightarrow> do {
                 sb \<leftarrow> carve_page_refs sa page_ref CACHELINE_SIZE;
                 Some (sb, page_ref, True)
               })
          else do {
            nx \<leftarrow> load64 s (new_free_page_refs s);
            Some (s\<lparr>new_free_page_refs := nx\<rparr>, new_free_page_refs s, True)
          });
       old_head \<leftarrow> pageref_head s1 processor_index block_class_index;
       s2 \<leftarrow> store64 s1 page_ref old_head;
       s3 \<leftarrow> set_pageref_head s2 processor_index block_class_index page_ref;
       fba0 \<leftarrow> load64 s3 (page_ref + 16);
       (s4, freelist_base_address) \<leftarrow>
         (if create_freelist then
            (case mem_sbrk s3 (int PAGE_SIZE) of
               (sa, fba) \<Rightarrow> do {
                 sb \<leftarrow> store64 sa (page_ref + 16) fba;
                 Some (sb, fba)
               })
          else Some (s3, fba0));
       s5 \<leftarrow> fill_page s4 page_ref freelist_base_address processor_index block_class_index;
       Some (s5, page_ref)
     }"

text \<open>
  The search of \<^verbatim>\<open>subpage_mm_malloc\<close> for a page-ref with a usable free block (lines 338-364),
  with the swap of the base block and its successor. It returns the page-ref, \<open>0\<close> when the list
  has none. The comparison of line 348 is made in \<^verbatim>\<open>size_t\<close>.
\<close>

partial_function (option) find_page_ref ::
  "alloc_state \<Rightarrow> int \<Rightarrow> nat \<Rightarrow> nat \<Rightarrow> (alloc_state \<times> nat) option" where
  "find_page_ref s block_class_index sz page_ref =
     (if page_ref = 0 then Some (s, 0)
      else do {
        nf \<leftarrow> load32 s (page_ref + 24);
        if nf > 0 then do {
          fl \<leftarrow> load64 s (page_ref + 8);
          fb \<leftarrow> load64 s (page_ref + 16);
          if fl = fb then do {
            cs \<leftarrow> shl1 (int BASE_CLASS + block_class_index);
            if size_t_of_int (cs - 8) \<ge> sz then Some (s, page_ref)
            else if nf > 1 then do {
              old_freelist_next \<leftarrow> load64 s fl;
              nn \<leftarrow> load64 s old_freelist_next;
              s1 \<leftarrow> store64 s fl nn;
              fl1 \<leftarrow> load64 s1 (page_ref + 8);
              s2 \<leftarrow> store64 s1 old_freelist_next fl1;
              s3 \<leftarrow> store64 s2 (page_ref + 8) old_freelist_next;
              Some (s3, page_ref)
            }
            else do {
              nx \<leftarrow> load64 s page_ref;
              find_page_ref s block_class_index sz nx
            }
          }
          else Some (s, page_ref)
        }
        else do {
          nx \<leftarrow> load64 s page_ref;
          find_page_ref s block_class_index sz nx
        }
      })"

text \<open>
  Lines 370-376 of \<^verbatim>\<open>subpage_mm_malloc\<close>: pop the head of the page-ref's freelist, and move
  the pointer past the two metadata words when the block is the one at the page base.
\<close>

definition pop_block :: "alloc_state \<Rightarrow> nat \<Rightarrow> (alloc_state \<times> nat) option" where
  "pop_block s page_ref =
     do {
       memory \<leftarrow> load64 s (page_ref + 8);
       nf \<leftarrow> load32 s (page_ref + 24);
       s1 \<leftarrow> store32 s (page_ref + 24) (nf - 1);
       nx \<leftarrow> load64 s1 memory;
       s2 \<leftarrow> store64 s1 (page_ref + 8) nx;
       fb \<leftarrow> load64 s2 (page_ref + 16);
       Some (s2, if memory = fb then memory + 2 * 4 else memory)
     }"

text \<open>\<^verbatim>\<open>sched_getcpu()\<close> is the argument \<open>cpu\<close>.\<close>

definition get_processor_index :: "alloc_state \<Rightarrow> int \<Rightarrow> int option" where
  "get_processor_index s cpu = c_mod cpu (num_processors s)"

definition subpage_mm_malloc :: "alloc_state \<Rightarrow> int \<Rightarrow> nat \<Rightarrow> (alloc_state \<times> nat) option" where
  "subpage_mm_malloc s cpu sz =
     do {
       processor_index \<leftarrow> get_processor_index s cpu;
       let block_class_index = get_block_class_index sz;
       head \<leftarrow> pageref_head s processor_index block_class_index;
       (s1, found) \<leftarrow> find_page_ref s block_class_index sz head;
       (s2, page_ref) \<leftarrow>
         (if found = 0 then allocate_pageref s1 processor_index block_class_index
          else Some (s1, found));
       pop_block s2 page_ref
     }"

text \<open>
  The search of \<^verbatim>\<open>subpage_mm_free\<close> for the page-ref bound to the page (lines 401-407); it
  returns \<open>(prior_page_ref, page_ref)\<close>, the latter \<open>0\<close> when no page-ref of the list is bound to
  the page.
\<close>

partial_function (option) locate_page_ref ::
  "alloc_state \<Rightarrow> nat \<Rightarrow> nat \<Rightarrow> nat \<Rightarrow> (nat \<times> nat) option" where
  "locate_page_ref s page_head prior_page_ref page_ref =
     (if page_ref = 0 then Some (prior_page_ref, 0)
      else do {
        fb \<leftarrow> load64 s (page_ref + 16);
        if fb = page_head then Some (prior_page_ref, page_ref)
        else do {
          nx \<leftarrow> load64 s page_ref;
          locate_page_ref s page_head page_ref nx
        }
      })"

text \<open>Lines 409-414: push the freed pointer onto the page-ref's freelist.\<close>

definition push_block :: "alloc_state \<Rightarrow> nat \<Rightarrow> nat \<Rightarrow> alloc_state option" where
  "push_block s page_ref ptr =
     do {
       tmp \<leftarrow> load64 s (page_ref + 8);
       s1 \<leftarrow> store64 s (page_ref + 8) ptr;
       fl \<leftarrow> load64 s1 (page_ref + 8);
       s2 \<leftarrow> store64 s1 fl tmp;
       nf \<leftarrow> load32 s2 (page_ref + 24);
       store32 s2 (page_ref + 24) (nf + 1)
     }"

text \<open>
  Lines 416-431: when the page has become fully empty, unlink the page-ref from its list, zero
  the page and put the page-ref on the reusable list.
\<close>

definition release_if_empty ::
  "alloc_state \<Rightarrow> int \<Rightarrow> int \<Rightarrow> nat \<Rightarrow> nat \<Rightarrow> alloc_state option" where
  "release_if_empty s processor_index block_class_index prior_page_ref page_ref =
     do {
       nf \<leftarrow> load32 s (page_ref + 24);
       cs \<leftarrow> shl1 (int BASE_CLASS + block_class_index);
       if nf = c_div (int PAGE_SIZE) cs then do {
         nx \<leftarrow> load64 s page_ref;
         s1 \<leftarrow> (if prior_page_ref \<noteq> 0 then store64 s prior_page_ref nx
                else set_pageref_head s processor_index block_class_index nx);
         fb \<leftarrow> load64 s1 (page_ref + 16);
         s2 \<leftarrow> bzero s1 fb PAGE_SIZE;
         s3 \<leftarrow> store64 s2 page_ref (reusable_page_refs s2);
         Some (s3\<lparr>reusable_page_refs := page_ref\<rparr>)
       }
       else Some s
     }"

definition subpage_mm_free :: "alloc_state \<Rightarrow> nat \<Rightarrow> (alloc_state \<times> int) option" where
  "subpage_mm_free s ptr =
     (let page_head = get_page_head s ptr in
      do {
        processor_index \<leftarrow> load32 s page_head;
        if processor_index = - 1 then Some (s, 0)
        else do {
          block_class_index \<leftarrow> load32 s (page_head + 4);
          page_ref_head \<leftarrow> pageref_head s processor_index block_class_index;
          (prior_page_ref, page_ref) \<leftarrow> locate_page_ref s page_head 0 page_ref_head;
          s1 \<leftarrow> push_block s page_ref ptr;
          s2 \<leftarrow> release_if_empty s1 processor_index block_class_index prior_page_ref page_ref;
          Some (s2, 1)
        }
      })"

section \<open>The public operations\<close>

definition mm_malloc :: "alloc_state \<Rightarrow> int \<Rightarrow> nat \<Rightarrow> (alloc_state \<times> nat) option" where
  "mm_malloc s cpu sz =
     (if sz \<le> PAGE_SIZE div 2 then subpage_mm_malloc s cpu sz
      else big_mm_malloc s ((sz + 2 * 4) mod 2 ^ 64))"

definition mm_free :: "alloc_state \<Rightarrow> nat \<Rightarrow> alloc_state option" where
  "mm_free s ptr =
     (if ptr = 0 then Some s
      else do {
        (s1, r) \<leftarrow> subpage_mm_free s ptr;
        if r = 0 then big_mm_free s1 ptr else Some s1
      })"

text \<open>
  \<^verbatim>\<open>mm_init\<close>. \<^verbatim>\<open>getNumProcessors()\<close> is the environment's answer. The mutexes live in the
  zeroed region after the directory; locking has no part in this sequential model, and
  \<^verbatim>\<open>pthread_mutex_init\<close> with default attributes leaves the zeroed bytes as they are.
\<close>

definition mm_init :: "substrate_env \<Rightarrow> alloc_state \<Rightarrow> (alloc_state \<times> int) option" where
  "mm_init env s =
     (case (if dseg_lo s = 0 \<and> dseg_hi s = 0 then mem_init env s else (s, 0)) of
        (s1, r) \<Rightarrow>
          if r = - 1 then Some (s1, - 1)
          else
            (let s2 = s1\<lparr>num_processors := env_num_processors env\<rparr>;
                 freelist_space = int NUM_CLASS * 8 * num_processors s2;
                 mutex_space = int CACHELINE_SIZE * num_processors s2;
                 page_needed = c_div (freelist_space + mutex_space + int PAGE_SIZE - 1) (int PAGE_SIZE)
             in case mem_sbrk s2 (page_needed * int PAGE_SIZE) of
                  (s3, ref) \<Rightarrow> do {
                    s4 \<leftarrow> bzero s3 ref (nat (page_needed * int PAGE_SIZE));
                    Some (s4\<lparr>processor_locks_base := ptr_add ref freelist_space\<rparr>, 0)
                  }))"

text \<open>The state before \<^verbatim>\<open>mm_init\<close>: the static variables of the C file, over any memory.\<close>

definition initial_state :: "(nat \<Rightarrow> byte) \<Rightarrow> alloc_state" where
  "initial_state m =
     \<lparr>mem = m, dseg_lo = 0, dseg_hi = 0, dseg_max = 0, big_list = 0, new_free_page_refs = 0,
      reusable_page_refs = 0, processor_locks_base = 0, num_processors = 0\<rparr>"

section \<open>Reading the lists out of memory\<close>

text \<open>The fields of a page-ref, read from raw memory.\<close>

definition pr_next :: "(nat \<Rightarrow> byte) \<Rightarrow> nat \<Rightarrow> nat" where
  "pr_next m page_ref = load_le m page_ref 8"

definition pr_freelist :: "(nat \<Rightarrow> byte) \<Rightarrow> nat \<Rightarrow> nat" where
  "pr_freelist m page_ref = load_le m (page_ref + 8) 8"

definition pr_freelist_base :: "(nat \<Rightarrow> byte) \<Rightarrow> nat \<Rightarrow> nat" where
  "pr_freelist_base m page_ref = load_le m (page_ref + 16) 8"

definition pr_num_free :: "(nat \<Rightarrow> byte) \<Rightarrow> nat \<Rightarrow> int" where
  "pr_num_free m page_ref = int32_of_nat (load_le m (page_ref + 24) 4)"

text \<open>
  The first \<open>n\<close> nodes met from \<open>p\<close> along the \<open>next\<close> links (the link is the first 8 bytes of a
  node), and the pointer found after them.
\<close>

primrec chain_nodes :: "(nat \<Rightarrow> byte) \<Rightarrow> nat \<Rightarrow> nat \<Rightarrow> nat list" where
  "chain_nodes m p 0 = []"
| "chain_nodes m p (Suc n) = p # chain_nodes m (load_le m p 8) n"

primrec chain_end :: "(nat \<Rightarrow> byte) \<Rightarrow> nat \<Rightarrow> nat \<Rightarrow> nat" where
  "chain_end m p 0 = p"
| "chain_end m p (Suc n) = chain_end m (load_le m p 8) n"

text \<open>
  Exactly \<open>n\<close> nodes are reachable from \<open>p\<close>: the chain of \<open>n\<close> nodes has no null and no repeated
  node, and ends in the null pointer.
\<close>

definition reaches_null_after :: "(nat \<Rightarrow> byte) \<Rightarrow> nat \<Rightarrow> nat \<Rightarrow> bool" where
  "reaches_null_after m p n =
     (distinct (chain_nodes m p n) \<and> 0 \<notin> set (chain_nodes m p n) \<and> chain_end m p n = 0)"

text \<open>The link fields of the nodes of a list do not overlap.\<close>

primrec apart :: "nat list \<Rightarrow> bool" where
  "apart [] = True"
| "apart (q # qs) = (list_all (\<lambda>r. q + 8 \<le> r \<or> r + 8 \<le> q) qs \<and> apart qs)"

text \<open>
  A node of the page at \<open>b\<close>: the page base itself, or an address past the two metadata words,
  with its link field inside the page.
\<close>

definition block_of_page :: "nat \<Rightarrow> nat \<Rightarrow> bool" where
  "block_of_page b q = ((q = b \<or> b + 8 \<le> q) \<and> q + 8 \<le> b + PAGE_SIZE)"

text \<open>
  The page-ref record and the page it is bound to lie in the heap and do not overlap, and
  the heap lies in the 64-bit address space.
\<close>

definition pageref_layout :: "alloc_state \<Rightarrow> nat \<Rightarrow> bool" where
  "pageref_layout s page_ref =
     (in_heap s page_ref 32 \<and> in_heap s (pr_freelist_base (mem s) page_ref) PAGE_SIZE \<and>
      (page_ref + 32 \<le> pr_freelist_base (mem s) page_ref \<or>
       pr_freelist_base (mem s) page_ref + PAGE_SIZE \<le> page_ref) \<and>
      dseg_hi s \<le> 2 ^ 64)"

text \<open>
  \<open>num_free\<close> counts a chain: the first \<open>num_free\<close> nodes from the freelist head are nodes of
  the page with link fields that do not overlap (so they are distinct, and the chain does not
  come back on itself). Nothing is said of the link of the last node.
\<close>

definition freelist_counted :: "alloc_state \<Rightarrow> nat \<Rightarrow> bool" where
  "freelist_counted s page_ref =
     (0 \<le> pr_num_free (mem s) page_ref \<and>
      apart (chain_nodes (mem s) (pr_freelist (mem s) page_ref)
        (nat (pr_num_free (mem s) page_ref))) \<and>
      list_all (block_of_page (pr_freelist_base (mem s) page_ref))
        (chain_nodes (mem s) (pr_freelist (mem s) page_ref) (nat (pr_num_free (mem s) page_ref))))"

text \<open>The first \<open>k\<close> slots of size \<open>cs\<close> of the page at \<open>b\<close>, the last one first.\<close>

definition slots :: "nat \<Rightarrow> nat \<Rightarrow> nat \<Rightarrow> nat list" where
  "slots b cs k = rev (map (\<lambda>j. b + j * cs) [0..<k])"

text \<open>
  The list of page-refs that starts at \<open>p\<close> and ends with the null pointer, along the \<open>next\<close>
  fields; and page-ref records (32 bytes each) that do not overlap.
\<close>

primrec pageref_path :: "(nat \<Rightarrow> byte) \<Rightarrow> nat \<Rightarrow> nat list \<Rightarrow> bool" where
  "pageref_path m p [] = (p = 0)"
| "pageref_path m p (q # qs) = (p = q \<and> q \<noteq> 0 \<and> pageref_path m (pr_next m q) qs)"

primrec records_apart :: "nat list \<Rightarrow> bool" where
  "records_apart [] = True"
| "records_apart (q # qs) = (list_all (\<lambda>r. q + 32 \<le> r \<or> r + 32 \<le> q) qs \<and> records_apart qs)"

section \<open>Example environments\<close>

text \<open>
  A heap region of 1 MiB at address \<open>0x10000\<close> on a machine with two processors; the same with
  room for one page and for two pages only; and a machine with 512 processors.
\<close>

definition env_example :: substrate_env where
  "env_example = \<lparr>env_heap_base = 65536, env_heap_size = 1048576, env_num_processors = 2\<rparr>"

definition env_one_page :: substrate_env where
  "env_one_page = \<lparr>env_heap_base = 65536, env_heap_size = 4096, env_num_processors = 2\<rparr>"

definition env_two_pages :: substrate_env where
  "env_two_pages = \<lparr>env_heap_base = 65536, env_heap_size = 8192, env_num_processors = 2\<rparr>"

definition env_512_cpus :: substrate_env where
  "env_512_cpus = \<lparr>env_heap_base = 65536, env_heap_size = 1048576, env_num_processors = 512\<rparr>"

definition env_refused :: substrate_env where
  "env_refused = \<lparr>env_heap_base = 0, env_heap_size = 0, env_num_processors = 2\<rparr>"

section \<open>Properties of the size classification\<close>

lemma get_block_class_index_loop_spec:
  "i < NUM_CLASS \<Longrightarrow> sz \<le> 2 ^ (NUM_CLASS - 1 + BASE_CLASS) \<Longrightarrow>
   int i \<le> get_block_class_index_loop i sz \<and>
   get_block_class_index_loop i sz < int NUM_CLASS \<and>
   sz \<le> 2 ^ (nat (get_block_class_index_loop i sz) + BASE_CLASS) \<and>
   (\<forall>j. i \<le> j \<and> j < nat (get_block_class_index_loop i sz) \<longrightarrow> 2 ^ (j + BASE_CLASS) < sz)"
proof (induction i sz rule: get_block_class_index_loop.induct)
  case (1 i sz)
  show ?case
  proof (cases "sz \<le> 2 ^ (i + BASE_CLASS)")
    case True
    with "1.prems" show ?thesis
      by (subst (1 2 3 4) get_block_class_index_loop.simps) simp
  next
    case False
    have "i + BASE_CLASS < NUM_CLASS - 1 + BASE_CLASS"
    proof (rule ccontr)
      assume "\<not> i + BASE_CLASS < NUM_CLASS - 1 + BASE_CLASS"
      then have "(2::nat) ^ (NUM_CLASS - 1 + BASE_CLASS) \<le> 2 ^ (i + BASE_CLASS)"
        by (intro power_increasing) simp_all
      with "1.prems"(2) have "sz \<le> 2 ^ (i + BASE_CLASS)" by (rule order_trans)
      with False show False by contradiction
    qed
    then have next_ok: "i + 1 < NUM_CLASS" by simp
    have unfold: "get_block_class_index_loop i sz = get_block_class_index_loop (i + 1) sz"
      using "1.prems"(1) False by (subst get_block_class_index_loop.simps) simp
    have IH: "int (i + 1) \<le> get_block_class_index_loop (i + 1) sz \<and>
      get_block_class_index_loop (i + 1) sz < int NUM_CLASS \<and>
      sz \<le> 2 ^ (nat (get_block_class_index_loop (i + 1) sz) + BASE_CLASS) \<and>
      (\<forall>j. i + 1 \<le> j \<and> j < nat (get_block_class_index_loop (i + 1) sz) \<longrightarrow>
           2 ^ (j + BASE_CLASS) < sz)"
      using "1.IH" [OF "1.prems"(1) _ next_ok "1.prems"(2)] False by simp
    have below: "2 ^ (j + BASE_CLASS) < sz"
      if "i \<le> j" "j < nat (get_block_class_index_loop (i + 1) sz)" for j
    proof (cases "j = i")
      case True
      with False show ?thesis by simp
    next
      case False
      with that IH show ?thesis by simp
    qed
    from IH below show ?thesis unfolding unfold by simp
  qed
qed

text \<open>
  C10. For every request size \<open>sz\<close> with \<open>1 \<le> sz \<le> 2048\<close>, the range in which
  \<^verbatim>\<open>mm_malloc\<close> takes the subpage path, \<^verbatim>\<open>get_block_class_index\<close> returns an index between 0
  and 8, and it is the smallest \<open>i\<close> with \<open>2 ^ (i + 3) \<ge> sz\<close>; so the \<open>-1\<close> after the loop is
  not reached.
\<close>

theorem get_block_class_index_smallest:
  assumes "1 \<le> sz" and "sz \<le> 2048"
  shows "0 \<le> get_block_class_index sz \<and> get_block_class_index sz \<le> 8 \<and>
         get_block_class_index sz \<noteq> - 1 \<and>
         sz \<le> 2 ^ (nat (get_block_class_index sz) + 3) \<and>
         (\<forall>j. j < nat (get_block_class_index sz) \<longrightarrow> 2 ^ (j + 3) < sz)"
proof -
  have "sz \<le> 2 ^ (NUM_CLASS - 1 + BASE_CLASS)"
    using assms by (simp add: NUM_CLASS_def BASE_CLASS_def)
  from get_block_class_index_loop_spec [of 0, OF _ this]
  show ?thesis
    by (simp add: get_block_class_index_def NUM_CLASS_def BASE_CLASS_def)
qed

theorem get_block_class_index_smallest_witness:
  "(1::nat) \<le> 100 \<and> (100::nat) \<le> 2048 \<and> get_block_class_index 100 = 4 \<and>
   (100::nat) \<le> 2 ^ (4 + 3) \<and> 2 ^ (3 + 3) < (100::nat)"
proof -
  have v: "get_block_class_index 100 = 4"
    by (simp add: get_block_class_index_def get_block_class_index_loop.simps
        NUM_CLASS_def BASE_CLASS_def)
  from get_block_class_index_smallest [of 100] show ?thesis
    by (simp add: v)
qed

section \<open>Running the model on concrete inputs\<close>

lemma load_le_4:
  "load_le m a 4 =
     unat (m a) + 256 * (unat (m (a + 1)) + 256 * (unat (m (a + 2)) + 256 * unat (m (a + 3))))"
proof -
  have e: "(4::nat) = Suc (Suc (Suc (Suc 0)))" by simp
  have a: "a + 1 = Suc a" "a + 2 = Suc (Suc a)" "a + 3 = Suc (Suc (Suc a))"
    by simp_all
  show ?thesis unfolding e a by (simp only: load_le.simps mult_0_right add_0_right)
qed

lemma load_le_8:
  "load_le m a 8 =
     unat (m a) + 256 * (unat (m (a + 1)) + 256 * (unat (m (a + 2)) + 256 *
     (unat (m (a + 3)) + 256 * (unat (m (a + 4)) + 256 * (unat (m (a + 5)) + 256 *
     (unat (m (a + 6)) + 256 * unat (m (a + 7))))))))"
proof -
  have e: "(8::nat) = Suc (Suc (Suc (Suc (Suc (Suc (Suc (Suc 0)))))))" by simp
  have a: "a + 1 = Suc a" "a + 2 = Suc (Suc a)" "a + 3 = Suc (Suc (Suc a))"
    "a + 4 = Suc (Suc (Suc (Suc a)))" "a + 5 = Suc (Suc (Suc (Suc (Suc a))))"
    "a + 6 = Suc (Suc (Suc (Suc (Suc (Suc a)))))"
    "a + 7 = Suc (Suc (Suc (Suc (Suc (Suc (Suc a))))))"
    by simp_all
  show ?thesis unfolding e a by (simp only: load_le.simps mult_0_right add_0_right)
qed

text \<open>
  The equations that run the model, and the congruence rules that make the simplifier
  execute a \<open>do\<close> block from its first statement on, not inside the continuation.
\<close>

lemmas run_defs = PAGE_SIZE_def CACHELINE_SIZE_def NUM_CLASS_def BASE_CLASS_def
  load_le_4 load_le_8 store_le_def zero_bytes_def in_heap_def int32_of_nat_def size_t_of_int_def
  ptr_add_def load32_def load64_def store8_def store32_def store64_def bzero_def c_div_def c_mod_def
  shl1_def mem_init_def mem_sbrk_def big_mm_malloc_walk.simps big_mm_malloc_def big_mm_free_def
  pageref_slot_def pageref_head_def set_pageref_head_def get_page_head_def
  carve_page_refs.simps build_freelist.simps fill_page_def allocate_pageref_def find_page_ref.simps
  pop_block_def get_processor_index_def subpage_mm_malloc_def locate_page_ref.simps
  push_block_def release_if_empty_def subpage_mm_free_def mm_malloc_def mm_free_def mm_init_def
  initial_state_def get_block_class_index_def get_block_class_index_loop.simps
  env_example_def env_one_page_def env_two_pages_def env_512_cpus_def env_refused_def

lemma option_bind_weak_cong: "m = m' \<Longrightarrow> Option.bind m f = Option.bind m' f"
  by simp

lemmas run_congs = option_bind_weak_cong if_weak_cong option.case_cong_weak prod.case_cong_weak
  let_weak_cong

text \<open>Small facts about the substrate and the C arithmetic.\<close>

lemma mem_sbrk_cases:
  "mem_sbrk s incr = (s', p) \<Longrightarrow>
     (p = 0 \<and> s' = s) \<or>
     (0 \<le> incr \<and> p = dseg_hi s \<and> s' = s\<lparr>dseg_hi := dseg_hi s + nat incr\<rparr>)"
  by (auto simp: mem_sbrk_def split: if_splits)

lemma bzero_fields:
  "bzero s a n = Some s' \<Longrightarrow> s' = s\<lparr>mem := zero_bytes (mem s) a n\<rparr>"
  by (auto simp: bzero_def split: if_splits)

lemma c_div_pos: "0 \<le> a \<Longrightarrow> 0 < b \<Longrightarrow> c_div a b = a div b"
  by (cases "a = 0") (simp_all add: c_div_def)

section \<open>The large-object allocator and its header\<close>

text \<open>
  C1. The claim: for every pointer \<open>p\<close> returned by the large allocator, on the split path as on
  the fresh path, the word before \<open>p\<close> holds the page count and the word before that the
  sentinel \<open>-1\<close>. The code, run on the scenario S2 of the specification (two processors, a zeroed
  heap): \<^verbatim>\<open>allocate(10000)\<close> takes three fresh pages and writes \<open>-1\<close> and \<open>3\<close> before
  \<open>p1 = 69640\<close>; after \<^verbatim>\<open>free(p1)\<close>, \<^verbatim>\<open>allocate(4000)\<close> carves the last page off that span without
  growing the heap, and before \<open>p2 = 77832\<close> the page count \<open>1\<close> is there, but the word before
  it is \<open>0\<close>: lines 90-93 write the count only, never the sentinel.
\<close>

theorem large_split_writes_no_sentinel:
  "do {
     (s1, r) \<leftarrow> mm_init env_example (initial_state (\<lambda>_. 0));
     (s2, p1) \<leftarrow> mm_malloc s1 0 10000;
     h0 \<leftarrow> load32 s2 (p1 - 8);
     h1 \<leftarrow> load32 s2 (p1 - 4);
     s3 \<leftarrow> mm_free s2 p1;
     (s4, p2) \<leftarrow> mm_malloc s3 0 4000;
     w0 \<leftarrow> load32 s4 (p2 - 8);
     w1 \<leftarrow> load32 s4 (p2 - 4);
     Some (p1, h0, h1, dseg_hi s2, p2, w0, w1, dseg_hi s4)
   } = Some (69640, - 1, 3, 81920, 77832, 0, 1, 81920)"
  by (simp add: run_defs cong: run_congs)

text \<open>
  C2. The claim: \<^verbatim>\<open>mm_free\<close> of a live pointer from a large allocation finds the sentinel \<open>-1\<close>
  in the first word of the pointer's page and releases the span onto the large freelist. The
  code, on the pointer \<open>p2\<close> that the split path returned in the scenario above: the first word
  of its page is \<open>0\<close>, so \<^verbatim>\<open>subpage_mm_free\<close> takes the block for a subpage block of processor 0,
  finds no page-ref for the page and dereferences the null page-ref: the call faults, and
  nothing is put on the large freelist.
\<close>

theorem large_split_free_taken_for_subpage:
  "do {
     (s1, r) \<leftarrow> mm_init env_example (initial_state (\<lambda>_. 0));
     (s2, p1) \<leftarrow> mm_malloc s1 0 10000;
     s3 \<leftarrow> mm_free s2 p1;
     (s4, p2) \<leftarrow> mm_malloc s3 0 4000;
     w \<leftarrow> load32 s4 (get_page_head s4 p2);
     Some (p2, w, subpage_mm_free s4 p2, mm_free s4 p2)
   } = Some (77832, 0, None, None)"
  by (simp add: run_defs cong: run_congs)

section \<open>The metadata words of a subpage page\<close>

text \<open>
  C3. The claim: the first two words of a page serving subpage allocations read back as
  exactly the processor index and the class index. The code writes each of them as one byte
  (lines 318-319, through a \<^verbatim>\<open>char *\<close>) and reads them as \<^verbatim>\<open>int\<close> (lines 390-393). On a machine with
  512 processors, an allocation of 2048 bytes on processor 256 binds a page whose first word
  reads \<open>0\<close>, not \<open>256\<close> (the second reads the class index 8), and freeing the block searches the
  list of processor 0 and faults; on processor 255 the word reads 255 and the free succeeds.
\<close>

theorem page_metadata_keeps_low_byte_only:
  "do {
     (s1, r) \<leftarrow> mm_init env_512_cpus (initial_state (\<lambda>_. 0));
     (s2, p) \<leftarrow> mm_malloc s1 256 2048;
     w0 \<leftarrow> load32 s2 (get_page_head s2 p);
     w1 \<leftarrow> load32 s2 (get_page_head s2 p + 4);
     (s2', p') \<leftarrow> mm_malloc s1 255 2048;
     w0' \<leftarrow> load32 s2' (get_page_head s2' p');
     s3' \<leftarrow> mm_free s2' p';
     Some (p, w0, w1, mm_free s2 p, p', w0', reusable_page_refs s3')
   } = Some (141312, 0, 8, None, 141312, 255, 135168)"
  by (simp add: run_defs cong: run_congs)

section \<open>Exhaustion of the heap substrate\<close>

text \<open>
  C5. The claim: \<^verbatim>\<open>allocate\<close> returns NULL exactly when the substrate cannot grow, on the large
  path and on the subpage path. The code, when the region has room for the directory only:
  the large path returns NULL, but \<^verbatim>\<open>allocate(8)\<close> does not return: \<^verbatim>\<open>allocate_pageref\<close> uses the
  NULL of \<^verbatim>\<open>mem_sbrk\<close> as the metadata page and writes to it. With room for the metadata page
  but not for the data page, the freelist is built at address 0, and the call faults too.
\<close>

theorem subpage_malloc_faults_when_heap_exhausted:
  "do {
     (s1, r) \<leftarrow> mm_init env_one_page (initial_state (\<lambda>_. 0));
     (s2, p) \<leftarrow> mm_malloc s1 0 4000;
     Some (p, mm_malloc s1 0 8)
   } = Some (0, None) \<and>
   do {
     (s1, r) \<leftarrow> mm_init env_two_pages (initial_state (\<lambda>_. 0));
     mm_malloc s1 0 8
   } = None"
  by (simp add: run_defs cong: run_congs)

section \<open>Two allocations of 2048 bytes\<close>

text \<open>
  C6, as stated: the second \<^verbatim>\<open>allocate(2048)\<close> on a fresh arena is served from the same page as
  the first, by the swap of the base block with its successor. In the code the two pointers
  lie on different pages.
\<close>

theorem second_2048_same_page_counterexample:
  "do {
     (s1, r) \<leftarrow> mm_init env_example (initial_state (\<lambda>_. 0));
     (s2, p1) \<leftarrow> mm_malloc s1 0 2048;
     (s3, p2) \<leftarrow> mm_malloc s2 0 2048;
     Some (get_page_head s3 p1 = get_page_head s3 p2)
   } = Some False"
  by (simp add: run_defs cong: run_congs)

text \<open>
  C6, amended. On a fresh arena (two processors, any initial memory, a substrate that can
  grow) two allocations of 2048 bytes both succeed. The first binds the page at 73728 and
  returns its non-base block, \<open>p1 = 73728 + 2048\<close>, leaving the base block at the head of the
  freelist. The second finds that page-ref with \<open>num_free = 1\<close> and the base block at the head,
  too small by the 8 bytes of metadata; with no second free block the swap rule does not
  apply, the page-ref is skipped, a second page is bound at 77824 (the break moves from 77824
  to 81920) and its non-base block is returned, \<open>p2 = 77824 + 2048\<close>. The first page-ref still
  has the base block at the head of its freelist and \<open>num_free = 1\<close>.
\<close>

theorem two_2048_allocations_bind_two_pages:
  "do {
     (s1, r) \<leftarrow> mm_init env_example (initial_state m);
     (s2, p1) \<leftarrow> mm_malloc s1 0 2048;
     pr1 \<leftarrow> pageref_head s2 0 8;
     fl1 \<leftarrow> load64 s2 (pr1 + 8);
     (s3, p2) \<leftarrow> mm_malloc s2 0 2048;
     pr2 \<leftarrow> pageref_head s3 0 8;
     fb2 \<leftarrow> load64 s3 (pr2 + 16);
     fl1' \<leftarrow> load64 s3 (pr1 + 8);
     nf1 \<leftarrow> load32 s3 (pr1 + 24);
     Some (p1, get_page_head s3 p1, fl1, dseg_hi s2, p2, get_page_head s3 p2, fb2, dseg_hi s3,
           fl1', nf1)
   } = Some (75776, 73728, 73728, 77824, 79872, 77824, 77824, 81920, 73728, 1)"
  by (simp add: run_defs cong: run_congs)

section \<open>Initialisation\<close>

text \<open>
  C8, as stated: a second call of \<^verbatim>\<open>mm_init\<close> returns 0 and leaves the state unchanged. In the
  code the second call returns 0, but the break and the base of the lock array have moved.
\<close>

theorem mm_init_twice_counterexample:
  "do {
     (s1, r1) \<leftarrow> mm_init env_example (initial_state (\<lambda>_. 0));
     (s2, r2) \<leftarrow> mm_init env_example s1;
     Some (r1, r2, s2 = s1, dseg_hi s1, dseg_hi s2, processor_locks_base s1, processor_locks_base s2)
   } = Some (0, 0, False, 69632, 73728, 65680, 69776)"
  by (simp add: run_defs cong: run_congs)

text \<open>
  C8, amended. \<^verbatim>\<open>mm_init\<close> returns \<open>-1\<close> only when the heap was not initialised and the
  substrate's \<^verbatim>\<open>mem_init\<close> fails. A call on an initialised heap (with at least one processor)
  that returns, returns 0 without initialising the substrate again; it leaves \<^verbatim>\<open>dseg_lo\<close>,
  where the arena directory starts, and every byte below the old break as they were, but it
  takes a new zeroed region from the substrate, so the break grows, and it moves the
  per-processor lock array into that region.
\<close>

theorem mm_init_again:
  assumes run: "mm_init env s = Some (s', r)"
  shows "(r = - 1 \<longrightarrow> dseg_lo s = 0 \<and> dseg_hi s = 0 \<and> mem_init env s = (s', - 1)) \<and>
         (dseg_lo s \<noteq> 0 \<and> 1 \<le> env_num_processors env \<longrightarrow>
            r = 0 \<and> dseg_lo s' = dseg_lo s \<and> dseg_hi s < dseg_hi s' \<and>
            processor_locks_base s' =
              ptr_add (dseg_hi s) (int NUM_CLASS * 8 * env_num_processors env) \<and>
            (\<forall>a. a < dseg_hi s \<longrightarrow> mem s' a = mem s a))"
proof (intro conjI impI)
  assume "r = - 1"
  with run show "dseg_lo s = 0" "dseg_hi s = 0" "mem_init env s = (s', - 1)"
    by (auto simp: mm_init_def Let_def split: if_splits prod.splits bind_splits)
next
  assume h: "dseg_lo s \<noteq> 0 \<and> 1 \<le> env_num_processors env"
  define n where "n = c_div (int NUM_CLASS * 8 * env_num_processors env
      + int CACHELINE_SIZE * env_num_processors env + int PAGE_SIZE - 1) (int PAGE_SIZE)"
  have n_pos: "1 \<le> n"
  proof -
    have "int PAGE_SIZE \<le> int NUM_CLASS * 8 * env_num_processors env
      + int CACHELINE_SIZE * env_num_processors env + int PAGE_SIZE - 1"
      using h by (simp add: NUM_CLASS_def CACHELINE_SIZE_def PAGE_SIZE_def)
    then show ?thesis
      unfolding n_def by (subst c_div_pos) (simp_all add: PAGE_SIZE_def)
  qed
  obtain s3 ref where
    sb: "mem_sbrk (s\<lparr>num_processors := env_num_processors env\<rparr>) (n * int PAGE_SIZE) = (s3, ref)"
    by (cases "mem_sbrk (s\<lparr>num_processors := env_num_processors env\<rparr>) (n * int PAGE_SIZE)")
  from run h sb obtain s4 where
    bz: "bzero s3 ref (nat (n * int PAGE_SIZE)) = Some s4" and
    s': "s' = s4\<lparr>processor_locks_base := ptr_add ref (int NUM_CLASS * 8 * env_num_processors env)\<rparr>"
    and r: "r = 0"
    by (auto simp: mm_init_def Let_def n_def split: if_splits bind_splits)
  have ref_ne: "ref \<noteq> 0"
  proof
    assume "ref = 0"
    from sb have "dseg_lo s3 = dseg_lo s"
      by (auto dest!: mem_sbrk_cases)
    with bz \<open>ref = 0\<close> n_pos h show False
      by (auto simp: bzero_def in_heap_def PAGE_SIZE_def split: if_splits)
  qed
  with sb have ref: "ref = dseg_hi s"
    and s3: "s3 = s\<lparr>num_processors := env_num_processors env,
                     dseg_hi := dseg_hi s + nat (n * int PAGE_SIZE)\<rparr>"
    by (auto dest!: mem_sbrk_cases)
  from bzero_fields [OF bz]
  have s4: "s4 = s3\<lparr>mem := zero_bytes (mem s3) ref (nat (n * int PAGE_SIZE))\<rparr>" .
  show "r = 0" by (rule r)
  show "dseg_lo s' = dseg_lo s" by (simp add: s' s4 s3)
  show "dseg_hi s < dseg_hi s'" using n_pos by (simp add: s' s4 s3 PAGE_SIZE_def)
  show "processor_locks_base s' = ptr_add (dseg_hi s) (int NUM_CLASS * 8 * env_num_processors env)"
    by (simp add: s' ref)
  show "\<forall>a. a < dseg_hi s \<longrightarrow> mem s' a = mem s a"
    by (simp add: s' s4 s3 ref zero_bytes_def)
qed

theorem mm_init_again_witness:
  "\<exists>s1 s2 s3. mm_init env_example (initial_state (\<lambda>_. 0)) = Some (s1, 0) \<and>
     dseg_lo s1 = 65536 \<and> dseg_hi s1 = 69632 \<and> processor_locks_base s1 = 65680 \<and>
     mm_init env_example s1 = Some (s2, 0) \<and>
     dseg_lo s2 = 65536 \<and> dseg_hi s1 < dseg_hi s2 \<and> processor_locks_base s2 = 69776 \<and>
     mm_init env_refused (initial_state (\<lambda>_. 0)) = Some (s3, - 1) \<and>
     mem_init env_refused (initial_state (\<lambda>_. 0)) = (s3, - 1)"
proof -
  obtain s1 where r1: "mm_init env_example (initial_state (\<lambda>_. 0)) = Some (s1, 0)"
    and f1: "dseg_lo s1 = 65536" "dseg_hi s1 = 69632" "processor_locks_base s1 = 65680"
    by (simp add: run_defs cong: run_congs)
  have "\<exists>s2. mm_init env_example s1 = Some (s2, 0)"
    using r1 by (simp add: run_defs cong: run_congs) (auto simp: run_defs)
  then obtain s2 where r2: "mm_init env_example s1 = Some (s2, 0)" ..
  obtain s3 where r3: "mm_init env_refused (initial_state (\<lambda>_. 0)) = Some (s3, - 1)"
    by (simp add: run_defs cong: run_congs)
  have np: "env_num_processors env_example = 2"
    by (simp add: env_example_def)
  from mm_init_again [OF r2] f1 np
  have a: "dseg_lo s2 = 65536 \<and> dseg_hi s1 < dseg_hi s2 \<and> processor_locks_base s2 = 69776"
    by (simp add: ptr_add_def NUM_CLASS_def)
  from mm_init_again [OF r3] have b: "mem_init env_refused (initial_state (\<lambda>_. 0)) = (s3, - 1)"
    by simp
  from r1 f1 r2 a r3 b show ?thesis by blast
qed

section \<open>Loads and stores\<close>

lemma load_le_cong:
  "(\<And>x. a \<le> x \<Longrightarrow> x < a + n \<Longrightarrow> m x = m' x) \<Longrightarrow> load_le m a n = load_le m' a n"
proof (induction n arbitrary: a)
  case 0
  show ?case by simp
next
  case (Suc n)
  have "m a = m' a" by (rule Suc.prems) simp_all
  moreover have "load_le m (Suc a) n = load_le m' (Suc a) n"
    by (rule Suc.IH, rule Suc.prems) simp_all
  ultimately show ?case by simp
qed

lemma load_le_bound: "load_le m a n < 256 ^ n"
proof (induction n arbitrary: a)
  case 0
  show ?case by simp
next
  case (Suc n)
  have "unat (m a) < 256" using unsigned_less [of "m a"] by simp
  moreover have "load_le m (Suc a) n < 256 ^ n" by (rule Suc.IH)
  ultimately show ?case by simp
qed

lemma load_store_le_same: "load_le (store_le m a n v) a n = v mod 256 ^ n"
proof (induction n arbitrary: a v m)
  case 0
  show ?case by simp
next
  case (Suc n)
  have tail: "load_le (store_le m a (Suc n) v) (Suc a) n = load_le (store_le m (Suc a) n (v div 256)) (Suc a) n"
  proof (rule load_le_cong)
    fix x assume "Suc a \<le> x" "x < Suc a + n"
    then have "x - a = Suc (x - Suc a)" by simp
    then have "v div 256 ^ (x - a) = v div 256 div 256 ^ (x - Suc a)"
      by (simp add: div_mult2_eq)
    with \<open>Suc a \<le> x\<close> \<open>x < Suc a + n\<close>
    show "store_le m a (Suc n) v x = store_le m (Suc a) n (v div 256) x"
      by (simp add: store_le_def)
  qed
  have head: "unat (store_le m a (Suc n) v a) = v mod 256"
    by (simp add: store_le_def unat_of_nat)
  have "load_le (store_le m a (Suc n) v) a (Suc n) = v mod 256 + 256 * (v div 256 mod 256 ^ n)"
    by (simp only: load_le.simps head tail Suc.IH)
  also have "\<dots> = v mod 256 ^ Suc n"
    by (simp add: mod_mult2_eq)
  finally show ?case .
qed

lemma load_store_le_other:
  "b + k \<le> a \<or> a + n \<le> b \<Longrightarrow> load_le (store_le m a n v) b k = load_le m b k"
  by (rule load_le_cong) (auto simp: store_le_def)

lemma load_zero_bytes_other:
  "b + k \<le> a \<or> a + n \<le> b \<Longrightarrow> load_le (zero_bytes m a n) b k = load_le m b k"
  by (rule load_le_cong) (auto simp: zero_bytes_def)

lemma load_le_zero: "(\<And>x. a \<le> x \<Longrightarrow> x < a + n \<Longrightarrow> m x = 0) \<Longrightarrow> load_le m a n = 0"
proof (induction n arbitrary: a)
  case 0
  show ?case by simp
next
  case (Suc n)
  have "m a = 0" by (rule Suc.prems) simp_all
  moreover have "load_le m (Suc a) n = 0"
    by (rule Suc.IH, rule Suc.prems) simp_all
  ultimately show ?case by simp
qed

lemma int32_of_nat_small: "n < 2 ^ 31 \<Longrightarrow> int32_of_nat n = int n"
  by (simp add: int32_of_nat_def)

lemma int32_roundtrip:
  "- (2 ^ 31) \<le> v \<Longrightarrow> v < 2 ^ 31 \<Longrightarrow> int32_of_nat (nat (v mod 2 ^ 32) mod 256 ^ 4) = v"
proof -
  assume lo: "- (2 ^ 31) \<le> v" and hi: "v < 2 ^ 31"
  have m: "nat (v mod 2 ^ 32) mod 256 ^ 4 = nat (v mod 2 ^ 32)"
  proof -
    have "v mod 2 ^ 32 < 2 ^ 32" by simp
    then have "nat (v mod 2 ^ 32) < 2 ^ 32" by simp
    then show ?thesis by simp
  qed
  show ?thesis
  proof (cases "0 \<le> v")
    case True
    with hi have "v mod 2 ^ 32 = v" by simp
    with True hi show ?thesis by (simp add: m int32_of_nat_def)
  next
    case False
    with lo have "(v + 2 ^ 32) mod 2 ^ 32 = v + 2 ^ 32"
      by (intro mod_pos_pos_trivial) simp_all
    then have "v mod 2 ^ 32 = v + 2 ^ 32" by simp
    with False lo show ?thesis by (simp add: m int32_of_nat_def)
  qed
qed


lemma in_heap_mem_update [simp]: "in_heap (s\<lparr>mem := m\<rparr>) a n = in_heap s a n"
  by (simp add: in_heap_def)

lemma in_heap_sub: "in_heap s a n \<Longrightarrow> a \<le> b \<Longrightarrow> b + k \<le> a + n \<Longrightarrow> in_heap s b k"
  by (simp add: in_heap_def)

lemma load64_Some: "load64 s a = Some v \<longleftrightarrow> in_heap s a 8 \<and> v = load_le (mem s) a 8"
  by (auto simp: load64_def)

lemma load32_Some: "load32 s a = Some v \<longleftrightarrow> in_heap s a 4 \<and> v = int32_of_nat (load_le (mem s) a 4)"
  by (auto simp: load32_def)

lemma store64_Some:
  "store64 s a v = Some s' \<longleftrightarrow> in_heap s a 8 \<and> s' = s\<lparr>mem := store_le (mem s) a 8 v\<rparr>"
  by (auto simp: store64_def)

lemma store32_Some:
  "store32 s a v = Some s' \<longleftrightarrow>
     in_heap s a 4 \<and> s' = s\<lparr>mem := store_le (mem s) a 4 (nat (v mod 2 ^ 32))\<rparr>"
  by (auto simp: store32_def)

lemma store8_Some:
  "store8 s a v = Some s' \<longleftrightarrow>
     in_heap s a 1 \<and> s' = s\<lparr>mem := store_le (mem s) a 1 (nat (v mod 2 ^ 8))\<rparr>"
  by (auto simp: store8_def)

lemmas access_Some = load64_Some load32_Some store64_Some store32_Some store8_Some


lemma pop_block_effect:
  assumes run: "pop_block s page_ref = Some (s', p)"
    and sep: "page_ref + 32 \<le> pr_freelist (mem s) page_ref \<or>
              pr_freelist (mem s) page_ref + 8 \<le> page_ref"
  shows "s' = s\<lparr>mem := store_le (store_le (mem s) (page_ref + 24) 4
                       (nat ((pr_num_free (mem s) page_ref - 1) mod 2 ^ 32)))
                     (page_ref + 8) 8 (load_le (mem s) (pr_freelist (mem s) page_ref) 8)\<rparr>"
    and "p = (if pr_freelist (mem s) page_ref = pr_freelist_base (mem s) page_ref
              then pr_freelist (mem s) page_ref + 8 else pr_freelist (mem s) page_ref)"
    and "in_heap s (pr_freelist (mem s) page_ref) 8"
  using run sep
  by (auto simp: pop_block_def bind_eq_Some_conv access_Some pr_freelist_def pr_num_free_def
      pr_freelist_base_def load_store_le_other)

lemma store_le_outside: "x < a \<or> a + n \<le> x \<Longrightarrow> store_le m a n v x = m x"
  by (auto simp: store_le_def)

lemma zero_bytes_outside: "x < a \<or> a + n \<le> x \<Longrightarrow> zero_bytes m a n x = m x"
  by (auto simp: zero_bytes_def)

lemma zero_bytes_inside: "a \<le> x \<Longrightarrow> x < a + n \<Longrightarrow> zero_bytes m a n x = 0"
  by (simp add: zero_bytes_def)

section \<open>Chains of nodes\<close>

lemma length_chain_nodes [simp]: "length (chain_nodes m p n) = n"
  by (induction n arbitrary: p) simp_all

lemma chain_nodes_frame_butlast:
  "(\<And>q. q \<in> set (butlast (chain_nodes m p n)) \<Longrightarrow> load_le m' q 8 = load_le m q 8) \<Longrightarrow>
   chain_nodes m' p n = chain_nodes m p n"
proof (induction n arbitrary: p)
  case 0
  show ?case by simp
next
  case (Suc n)
  show ?case
  proof (cases n)
    case 0
    then show ?thesis by simp
  next
    case (Suc k)
    then have ne: "chain_nodes m (load_le m p 8) n \<noteq> []" by simp
    have hd: "load_le m' p 8 = load_le m p 8"
      by (rule Suc.prems) (simp add: ne)
    have "chain_nodes m' (load_le m p 8) n = chain_nodes m (load_le m p 8) n"
      by (rule Suc.IH, rule Suc.prems) (simp add: ne)
    with hd show ?thesis by simp
  qed
qed

lemma chain_nodes_frame:
  "(\<And>q. q \<in> set (chain_nodes m p n) \<Longrightarrow> load_le m' q 8 = load_le m q 8) \<Longrightarrow>
   chain_nodes m' p n = chain_nodes m p n"
  by (rule chain_nodes_frame_butlast) (auto dest: in_set_butlastD)

lemma apart_distinct: "apart qs \<Longrightarrow> distinct qs"
  by (induction qs) (auto simp: list_all_iff)

lemma apart_card: "apart qs \<Longrightarrow> card (\<Union>q\<in>set qs. {q..<q + 8}) = 8 * length qs"
proof (induction qs)
  case Nil
  show ?case by simp
next
  case (Cons q qs)
  then have IH: "card (\<Union>r\<in>set qs. {r..<r + 8}) = 8 * length qs" by simp
  have disj: "{q..<q + 8} \<inter> (\<Union>r\<in>set qs. {r..<r + 8}) = {}"
    using Cons.prems by (fastforce simp: list_all_iff)
  have "card ({q..<q + 8} \<union> (\<Union>r\<in>set qs. {r..<r + 8})) =
        card {q..<q + 8} + card (\<Union>r\<in>set qs. {r..<r + 8})"
    by (rule card_Un_disjoint) (simp_all add: disj)
  with IH show ?case by simp
qed

lemma apart_blocks_length:
  assumes "apart qs" and "list_all (block_of_page b) qs"
  shows "length qs \<le> 512"
proof -
  have "(\<Union>q\<in>set qs. {q..<q + 8}) \<subseteq> {b..<b + PAGE_SIZE}"
    using assms(2) by (fastforce simp: list_all_iff block_of_page_def)
  then have "card (\<Union>q\<in>set qs. {q..<q + 8}) \<le> card {b..<b + PAGE_SIZE}"
    by (intro card_mono) simp_all
  with apart_card [OF assms(1)] show ?thesis by (simp add: PAGE_SIZE_def)
qed

lemma int32_of_nat_range: "- (2 ^ 31) \<le> int32_of_nat n \<and> int32_of_nat n < 2 ^ 31"
proof -
  have "n mod 2 ^ 32 < 2 ^ 32" by simp
  then show ?thesis unfolding int32_of_nat_def by (auto simp: not_less)
qed

text \<open>Stated on numerals, the form in which the simplifier meets these terms.\<close>

lemma load32_store32_same:
  "- 2147483648 \<le> v \<Longrightarrow> v < 2147483648 \<Longrightarrow>
   int32_of_nat (load_le (store_le m a 4 (nat (v mod 4294967296))) a 4) = v"
  using int32_roundtrip [of v] by (simp add: load_store_le_same)

lemma load32_store32_val:
  "- 2147483648 \<le> v \<Longrightarrow> v < 2147483648 \<Longrightarrow> w = nat (v mod 4294967296) \<Longrightarrow>
   int32_of_nat (load_le (store_le m a 4 w) a 4) = v"
  by (simp add: load32_store32_same)

lemma load64_store64_same:
  "v < 18446744073709551616 \<Longrightarrow> load_le (store_le m a 8 v) a 8 = v"
  by (simp add: load_store_le_same)

lemma push_block_effect:
  assumes run: "push_block s page_ref ptr = Some s'"
    and sep: "page_ref + 32 \<le> ptr \<or> ptr + 8 \<le> page_ref"
    and ptr: "ptr < 2 ^ 64"
  shows "s' = s\<lparr>mem := store_le (store_le (store_le (mem s) (page_ref + 8) 8 ptr) ptr 8
                       (pr_freelist (mem s) page_ref)) (page_ref + 24) 4
                       (nat ((pr_num_free (mem s) page_ref + 1) mod 2 ^ 32))\<rparr>"
    and "in_heap s ptr 8"
  using run sep ptr
  by (auto simp: push_block_def bind_eq_Some_conv access_Some pr_freelist_def pr_num_free_def
      load_store_le_other load64_store64_same)

section \<open>Popping and pushing a block\<close>

lemma block_sep:
  "pageref_layout s page_ref \<Longrightarrow> block_of_page (pr_freelist_base (mem s) page_ref) q \<Longrightarrow>
   page_ref + 32 \<le> q \<or> q + 8 \<le> page_ref"
  by (auto simp: pageref_layout_def block_of_page_def PAGE_SIZE_def)

lemma pop_block_counted:
  assumes L: "pageref_layout s page_ref"
    and C: "freelist_counted s page_ref"
    and pos: "0 < pr_num_free (mem s) page_ref"
    and run: "pop_block s page_ref = Some (s', p)"
  shows "pageref_layout s' page_ref \<and> freelist_counted s' page_ref \<and>
         pr_num_free (mem s') page_ref = pr_num_free (mem s) page_ref - 1 \<and>
         pr_freelist_base (mem s') page_ref = pr_freelist_base (mem s) page_ref \<and>
         chain_nodes (mem s') (pr_freelist (mem s') page_ref) (nat (pr_num_free (mem s') page_ref)) =
           tl (chain_nodes (mem s) (pr_freelist (mem s) page_ref) (nat (pr_num_free (mem s) page_ref))) \<and>
         p = (if pr_freelist (mem s) page_ref = pr_freelist_base (mem s) page_ref
              then pr_freelist_base (mem s) page_ref + 8 else pr_freelist (mem s) page_ref)"
proof -
  define m where "m = mem s"
  define h where "h = pr_freelist m page_ref"
  define b where "b = pr_freelist_base m page_ref"
  define nf where "nf = pr_num_free m page_ref"
  define k where "k = nat (nf - 1)"
  have names: "pr_freelist (mem s) page_ref = h" "pr_freelist_base (mem s) page_ref = b"
    "pr_num_free (mem s) page_ref = nf"
    by (simp_all add: h_def b_def nf_def m_def)
  have pos': "0 < nf" using pos by (simp add: names)
  have n: "nat nf = Suc k" using pos' by (simp add: k_def)
  define rest where "rest = chain_nodes m (load_le m h 8) k"
  have chain: "chain_nodes (mem s) h (nat nf) = h # rest"
    by (simp add: n rest_def m_def)
  from C have ap: "apart (h # rest)" and blk: "list_all (block_of_page b) (h # rest)"
    unfolding freelist_counted_def names chain by simp_all
  from blk have hb: "block_of_page b h" by simp
  from block_sep [OF L] hb have hsep: "page_ref + 32 \<le> h \<or> h + 8 \<le> page_ref"
    by (simp add: names)
  define m' where "m' = store_le (store_le m (page_ref + 24) 4 (nat ((nf - 1) mod 2 ^ 32)))
     (page_ref + 8) 8 (load_le m h 8)"
  from pop_block_effect [OF run] hsep
  have s': "s' = s\<lparr>mem := m'\<rparr>"
    and p: "p = (if h = b then b + 8 else h)"
    by (simp_all add: names) (simp_all add: m'_def m_def)
  have mem': "mem s' = m'" by (simp add: s')
  have nx: "load_le m h 8 < 2 ^ 64" using load_le_bound [of m h 8] by simp
  have fl': "pr_freelist (mem s') page_ref = load_le m h 8"
    using nx by (simp add: mem' pr_freelist_def m'_def load64_store64_same)
  have rng: "- (2 ^ 31) \<le> nf - 1" "nf - 1 < 2 ^ 31"
    using pos' int32_of_nat_range [of "load_le m (page_ref + 24) 4"]
    by (simp_all add: nf_def pr_num_free_def)
  have nf': "pr_num_free (mem s') page_ref = nf - 1"
    using rng by (simp add: mem' pr_num_free_def m'_def load_store_le_other load32_store32_same)
  have fb': "pr_freelist_base (mem s') page_ref = b"
    by (simp add: mem' pr_freelist_base_def m'_def load_store_le_other b_def)
  have frame: "load_le m' q 8 = load_le m q 8" if "q \<in> set rest" for q
  proof -
    from that blk have "block_of_page b q" by (simp add: list_all_iff)
    with block_sep [OF L] have "page_ref + 32 \<le> q \<or> q + 8 \<le> page_ref"
      by (simp add: names)
    then show ?thesis by (auto simp: m'_def load_store_le_other)
  qed
  have "chain_nodes m' (load_le m h 8) k = rest"
    unfolding rest_def by (rule chain_nodes_frame) (simp add: frame rest_def)
  then have chain': "chain_nodes (mem s') (pr_freelist (mem s') page_ref)
      (nat (pr_num_free (mem s') page_ref)) = rest"
    unfolding fl' nf' by (simp add: k_def mem')
  note chain2 = chain' [unfolded nf']
  have lay: "pageref_layout s' page_ref"
    using L unfolding pageref_layout_def fb' names by (simp add: s')
  have cnt: "freelist_counted s' page_ref"
    unfolding freelist_counted_def nf' fb' chain2 using ap blk pos' by simp
  show ?thesis
    unfolding names chain nf' fb' chain2 using lay cnt p by simp
qed

lemma push_block_counted:
  assumes L: "pageref_layout s page_ref"
    and C: "freelist_counted s page_ref"
    and blk: "block_of_page (pr_freelist_base (mem s) page_ref) ptr"
    and fresh: "list_all (\<lambda>r. ptr + 8 \<le> r \<or> r + 8 \<le> ptr)
       (chain_nodes (mem s) (pr_freelist (mem s) page_ref) (nat (pr_num_free (mem s) page_ref)))"
    and run: "push_block s page_ref ptr = Some s'"
  shows "pageref_layout s' page_ref \<and> freelist_counted s' page_ref \<and>
         pr_num_free (mem s') page_ref = pr_num_free (mem s) page_ref + 1 \<and>
         pr_freelist_base (mem s') page_ref = pr_freelist_base (mem s) page_ref \<and>
         pr_freelist (mem s') page_ref = ptr \<and>
         chain_nodes (mem s') (pr_freelist (mem s') page_ref) (nat (pr_num_free (mem s') page_ref)) =
           ptr # chain_nodes (mem s) (pr_freelist (mem s) page_ref) (nat (pr_num_free (mem s) page_ref))"
proof -
  define m where "m = mem s"
  define h where "h = pr_freelist m page_ref"
  define b where "b = pr_freelist_base m page_ref"
  define nf where "nf = pr_num_free m page_ref"
  define qs where "qs = chain_nodes m h (nat nf)"
  have names: "pr_freelist (mem s) page_ref = h" "pr_freelist_base (mem s) page_ref = b"
    "pr_num_free (mem s) page_ref = nf"
    by (simp_all add: h_def b_def nf_def m_def)
  have chain: "chain_nodes (mem s) h (nat nf) = qs"
    by (simp add: qs_def m_def)
  from C have nn: "0 \<le> nf" and ap: "apart qs" and blks: "list_all (block_of_page b) qs"
    unfolding freelist_counted_def names chain by simp_all
  from fresh have fresh': "list_all (\<lambda>r. ptr + 8 \<le> r \<or> r + 8 \<le> ptr) qs"
    unfolding names chain .
  from blk have blk': "block_of_page b ptr" unfolding names .
  from apart_blocks_length [OF ap blks] nn have small: "nf \<le> 512"
    by (simp add: qs_def)
  from block_sep [OF L] blk have psep: "page_ref + 32 \<le> ptr \<or> ptr + 8 \<le> page_ref"
    by simp
  have "in_heap s (pr_freelist_base (mem s) page_ref) PAGE_SIZE" "dseg_hi s \<le> 2 ^ 64"
    using L by (simp_all add: pageref_layout_def)
  with blk have pw: "ptr < 2 ^ 64"
    by (simp add: block_of_page_def in_heap_def)
  define m' where "m' = store_le (store_le (store_le m (page_ref + 8) 8 ptr) ptr 8 h)
     (page_ref + 24) 4 (nat ((nf + 1) mod 2 ^ 32))"
  from push_block_effect [OF run psep pw]
  have s': "s' = s\<lparr>mem := m'\<rparr>"
    by (simp add: names) (simp add: m'_def m_def)
  have mem': "mem s' = m'" by (simp add: s')
  have fl': "pr_freelist (mem s') page_ref = ptr"
    using psep pw
    by (auto simp: mem' pr_freelist_def m'_def load_store_le_other load64_store64_same)
  have rng: "- (2 ^ 31) \<le> nf + 1" "nf + 1 < 2 ^ 31"
    using nn small by simp_all
  have nf': "pr_num_free (mem s') page_ref = nf + 1"
    using rng by (simp add: mem' pr_num_free_def m'_def load32_store32_same)
  have fb': "pr_freelist_base (mem s') page_ref = b"
    using psep by (auto simp: mem' pr_freelist_base_def m'_def load_store_le_other b_def)
  have hw: "h < 2 ^ 64"
    using load_le_bound [of m "page_ref + 8" 8] by (simp add: h_def pr_freelist_def)
  have link: "load_le m' ptr 8 = h"
    using psep hw by (auto simp: m'_def load_store_le_other load64_store64_same)
  have frame: "load_le m' q 8 = load_le m q 8" if "q \<in> set qs" for q
  proof -
    from that blks have "block_of_page b q" by (simp add: list_all_iff)
    with block_sep [OF L] have "page_ref + 32 \<le> q \<or> q + 8 \<le> page_ref"
      by (simp add: names)
    moreover from that fresh' have "ptr + 8 \<le> q \<or> q + 8 \<le> ptr"
      by (simp add: list_all_iff)
    ultimately show ?thesis by (auto simp: m'_def load_store_le_other)
  qed
  have old: "chain_nodes m' h (nat nf) = qs"
    unfolding qs_def by (rule chain_nodes_frame) (simp add: frame qs_def)
  have n': "nat (nf + 1) = Suc (nat nf)" using nn by simp
  have chain': "chain_nodes (mem s') (pr_freelist (mem s') page_ref)
      (nat (pr_num_free (mem s') page_ref)) = ptr # qs"
    unfolding fl' nf' by (simp add: n' mem' link old)
  note chain2 = chain' [unfolded nf']
  have lay: "pageref_layout s' page_ref"
    using L unfolding pageref_layout_def fb' names by (simp add: s')
  have cnt: "freelist_counted s' page_ref"
    unfolding freelist_counted_def nf' fb' chain2 using ap blks blk' fresh' nn by simp
  show ?thesis
    unfolding names chain nf' fb' chain2 using lay cnt fl' by simp
qed

section \<open>Building the freelist of a page\<close>

lemma slots_Suc: "slots b cs (Suc k) = (b + k * cs) # slots b cs k"
  by (simp add: slots_def)

lemma slots_0: "slots b cs 0 = []"
  by (simp add: slots_def)

lemma set_slots: "set (slots b cs k) = (\<lambda>j. b + j * cs) ` {0..<k}"
  by (simp add: slots_def)

lemma slots_apart: "8 \<le> cs \<Longrightarrow> apart (slots b cs k)"
proof (induction k)
  case 0
  show ?case by (simp add: slots_0)
next
  case (Suc k)
  have "b + j * cs + 8 \<le> b + k * cs" if "j < k" for j
  proof -
    from that have "Suc j * cs \<le> k * cs" by (intro mult_le_mono1) simp
    with Suc.prems show ?thesis by simp
  qed
  with Suc show ?case
    by (auto simp: slots_Suc list_all_iff set_slots)
qed

lemma slots_blocks:
  "8 \<le> cs \<Longrightarrow> k * cs \<le> PAGE_SIZE \<Longrightarrow> list_all (block_of_page b) (slots b cs k)"
proof -
  assume cs: "8 \<le> cs" and k: "k * cs \<le> PAGE_SIZE"
  have "block_of_page b (b + j * cs)" if "j < k" for j
  proof -
    from that have "Suc j * cs \<le> k * cs" by (intro mult_le_mono1) simp
    with cs k have top: "j * cs + 8 \<le> PAGE_SIZE" by simp
    have "j = 0 \<or> 8 \<le> j * cs"
    proof (cases j)
      case 0
      then show ?thesis by simp
    next
      case (Suc i)
      with cs show ?thesis by simp
    qed
    with top show ?thesis by (auto simp: block_of_page_def)
  qed
  then show ?thesis by (auto simp: list_all_iff set_slots)
qed

lemma build_freelist_step:
  assumes i: "i < PAGE_SIZE" and cs: "0 < cs"
    and h1: "in_heap s (page_ref + 8) 8" and h2: "in_heap s (page_ref + 24) 4"
    and h3: "in_heap s (b + i) 8"
    and sep: "page_ref + 32 \<le> b + i \<or> b + i + 8 \<le> page_ref"
  shows "build_freelist s page_ref b cs i =
         build_freelist
           (s\<lparr>mem := store_le (store_le (store_le (mem s) (b + i) 8 (pr_freelist (mem s) page_ref))
                (page_ref + 8) 8 (b + i)) (page_ref + 24) 4
                (nat ((pr_num_free (mem s) page_ref + 1) mod 2 ^ 32))\<rparr>)
           page_ref b cs (i + cs)"
  using assms
  by (subst build_freelist.simps)
     (auto simp: load64_def store64_def load32_def store32_def pr_freelist_def pr_num_free_def
       load_store_le_other Let_def)

lemma build_freelist_done:
  "\<not> i < PAGE_SIZE \<Longrightarrow> build_freelist s page_ref b cs i = Some s"
  by (subst build_freelist.simps) simp

text \<open>The loop, from the state in which \<open>k\<close> slots are chained to the end.\<close>

lemma build_freelist_chain:
  assumes cs: "8 \<le> cs" and n: "n * cs = PAGE_SIZE"
    and rec: "in_heap s page_ref 32" and page: "in_heap s b PAGE_SIZE"
    and sep: "page_ref + 32 \<le> b \<or> b + PAGE_SIZE \<le> page_ref"
    and hi: "dseg_hi s \<le> 2 ^ 64"
    and k: "k \<le> n"
    and nf: "pr_num_free (mem s) page_ref = int k"
    and ch: "chain_nodes (mem s) (pr_freelist (mem s) page_ref) k = slots b cs k"
  shows "\<exists>m'. build_freelist s page_ref b cs (k * cs) = Some (s\<lparr>mem := m'\<rparr>) \<and>
           pr_num_free m' page_ref = int n \<and>
           chain_nodes m' (pr_freelist m' page_ref) n = slots b cs n \<and>
           (\<forall>x. (x < b \<or> b + PAGE_SIZE \<le> x) \<and> (x < page_ref + 8 \<or> page_ref + 16 \<le> x) \<and>
                (x < page_ref + 24 \<or> page_ref + 28 \<le> x) \<longrightarrow> m' x = mem s x)"
  using k nf ch rec page hi
proof (induction "n - k" arbitrary: k s)
  case 0
  then have kn: "k = n" by simp
  have "build_freelist s page_ref b cs (k * cs) = Some s"
    by (rule build_freelist_done) (simp add: kn n)
  then have "build_freelist s page_ref b cs (k * cs) = Some (s\<lparr>mem := mem s\<rparr>)" by simp
  with 0 kn show ?case by blast
next
  case (Suc d)
  then have kn: "k < n" by simp
  define i where "i = k * cs"
  have "Suc k * cs \<le> n * cs" using kn by (intro mult_le_mono1) simp
  then have top: "i + cs \<le> PAGE_SIZE" by (simp add: i_def n)
  with cs have i: "i < PAGE_SIZE" and i8: "i + 8 \<le> PAGE_SIZE" by simp_all
  define m where "m = mem s"
  define m1 where "m1 = store_le (store_le (store_le m (b + i) 8 (pr_freelist m page_ref))
                (page_ref + 8) 8 (b + i)) (page_ref + 24) 4
                (nat ((pr_num_free m page_ref + 1) mod 2 ^ 32))"
  define s1 where "s1 = s\<lparr>mem := m1\<rparr>"
  have isep: "page_ref + 32 \<le> b + i \<or> b + i + 8 \<le> page_ref"
    using sep i8 by auto
  have step: "build_freelist s page_ref b cs i = build_freelist s1 page_ref b cs (i + cs)"
    unfolding s1_def m1_def m_def
    using i cs Suc.prems(4,5) i8
    by (intro build_freelist_step isep) (simp_all add: in_heap_def)
  have kb: "int k + 1 < 2 ^ 31"
  proof -
    have "k * 8 \<le> k * cs" by (rule mult_le_mono2) (rule cs)
    moreover note i [unfolded i_def]
    ultimately have "k * 8 < PAGE_SIZE" by (rule le_less_trans)
    then show ?thesis by (simp add: PAGE_SIZE_def)
  qed
  have nf1: "pr_num_free m1 page_ref = int (Suc k)"
    unfolding pr_num_free_def m1_def
    using kb Suc.prems(2)
    by (intro load32_store32_val) (simp_all add: pr_num_free_def m_def)
  have biw: "b + i < 2 ^ 64"
    using Suc.prems(5,6) i8 by (simp add: in_heap_def)
  have fl1: "pr_freelist m1 page_ref = b + i"
    using biw by (simp add: pr_freelist_def m1_def load_store_le_other load64_store64_same)
  have hw: "pr_freelist m page_ref < 2 ^ 64"
    using load_le_bound [of m "page_ref + 8" 8] by (simp add: pr_freelist_def)
  have link: "load_le m1 (b + i) 8 = pr_freelist m page_ref"
    using isep hw by (auto simp: m1_def load_store_le_other load64_store64_same)
  have frame: "load_le m1 q 8 = load_le m q 8" if "q \<in> set (slots b cs k)" for q
  proof -
    from that obtain j where j: "j < k" and q: "q = b + j * cs"
      by (auto simp: set_slots)
    from j have "Suc j * cs \<le> k * cs" by (intro mult_le_mono1) simp
    then have a: "j * cs + cs \<le> i" by (simp add: i_def)
    with cs have "q + 8 \<le> b + i" by (simp add: q)
    moreover from a cs i8 sep have "page_ref + 32 \<le> q \<or> q + 8 \<le> page_ref"
      by (auto simp: q)
    ultimately show ?thesis by (auto simp: m1_def load_store_le_other)
  qed
  have "chain_nodes m1 (pr_freelist m page_ref) k = chain_nodes m (pr_freelist m page_ref) k"
    by (rule chain_nodes_frame) (use Suc.prems(3) frame in \<open>simp add: m_def\<close>)
  then have old: "chain_nodes m1 (pr_freelist m page_ref) k = slots b cs k"
    using Suc.prems(3) by (simp add: m_def)
  have "chain_nodes m1 (b + i) (Suc k) = (b + i) # slots b cs k"
    by (simp add: link old)
  then have ch1: "chain_nodes m1 (pr_freelist m1 page_ref) (Suc k) = slots b cs (Suc k)"
    unfolding fl1 slots_Suc i_def .
  have d: "d = n - Suc k" using Suc.hyps(2) by simp
  have "\<exists>m'. build_freelist s1 page_ref b cs (Suc k * cs) = Some (s1\<lparr>mem := m'\<rparr>) \<and>
           pr_num_free m' page_ref = int n \<and>
           chain_nodes m' (pr_freelist m' page_ref) n = slots b cs n \<and>
           (\<forall>x. (x < b \<or> b + PAGE_SIZE \<le> x) \<and> (x < page_ref + 8 \<or> page_ref + 16 \<le> x) \<and>
                (x < page_ref + 24 \<or> page_ref + 28 \<le> x) \<longrightarrow> m' x = mem s1 x)"
    using kn nf1 ch1 Suc.prems(4,5,6)
    by (intro Suc.hyps(1) d) (simp_all add: s1_def)
  then obtain m' where run: "build_freelist s1 page_ref b cs (Suc k * cs) = Some (s1\<lparr>mem := m'\<rparr>)"
    and r1: "pr_num_free m' page_ref = int n"
    and r2: "chain_nodes m' (pr_freelist m' page_ref) n = slots b cs n"
    and r3: "\<forall>x. (x < b \<or> b + PAGE_SIZE \<le> x) \<and> (x < page_ref + 8 \<or> page_ref + 16 \<le> x) \<and>
                (x < page_ref + 24 \<or> page_ref + 28 \<le> x) \<longrightarrow> m' x = mem s1 x"
    by blast
  have out: "m1 x = m x" if "x < b \<or> b + PAGE_SIZE \<le> x" "x < page_ref + 8 \<or> page_ref + 16 \<le> x"
      "x < page_ref + 24 \<or> page_ref + 28 \<le> x" for x
    using that i8 by (auto simp: m1_def store_le_def)
  have "build_freelist s page_ref b cs (k * cs) = Some (s\<lparr>mem := m'\<rparr>)"
    using step run by (simp add: i_def s1_def add.commute)
  moreover have "\<forall>x. (x < b \<or> b + PAGE_SIZE \<le> x) \<and> (x < page_ref + 8 \<or> page_ref + 16 \<le> x) \<and>
                (x < page_ref + 24 \<or> page_ref + 28 \<le> x) \<longrightarrow> m' x = mem s x"
    using r3 out by (simp add: s1_def m_def)
  ultimately show ?case using r1 r2 by blast
qed

lemma set_butlast_slots:
  "set (butlast (slots b cs k)) = (\<lambda>j. b + j * cs) ` {1..<k}"
proof -
  have "butlast (slots b cs k) = rev (map (\<lambda>j. b + j * cs) (tl [0..<k]))"
    by (simp add: slots_def butlast_rev flip: map_tl)
  then show ?thesis by simp
qed

lemma class_size_facts:
  assumes "0 \<le> c" and "c \<le> 8"
  shows "shl1 (c + int BASE_CLASS) = Some (2 ^ (nat c + 3))"
    and "2 ^ (9 - nat c) * (2::nat) ^ (nat c + 3) = PAGE_SIZE"
    and "(8::nat) \<le> 2 ^ (nat c + 3)"
proof -
  from assms show "shl1 (c + int BASE_CLASS) = Some (2 ^ (nat c + 3))"
    by (simp add: shl1_def BASE_CLASS_def nat_add_distrib)
  from assms have "9 - nat c + (nat c + 3) = 12" by simp
  then have "(2::nat) ^ (9 - nat c) * 2 ^ (nat c + 3) = 2 ^ 12"
    by (simp only: power_add [symmetric])
  then show "2 ^ (9 - nat c) * (2::nat) ^ (nat c + 3) = PAGE_SIZE"
    by (simp add: PAGE_SIZE_def)
  have "(2::nat) ^ 3 \<le> 2 ^ (nat c + 3)"
    by (rule power_increasing) simp_all
  then show "(8::nat) \<le> 2 ^ (nat c + 3)" by simp
qed

lemma fill_page_counted:
  assumes c: "0 \<le> c" "c \<le> 8"
    and rec: "in_heap s page_ref 32" and page: "in_heap s b PAGE_SIZE"
    and sep: "page_ref + 32 \<le> b \<or> b + PAGE_SIZE \<le> page_ref"
    and hi: "dseg_hi s \<le> 2 ^ 64"
    and base: "pr_freelist_base (mem s) page_ref = b"
  shows "\<exists>s'. fill_page s page_ref b p c = Some s' \<and>
           pageref_layout s' page_ref \<and> freelist_counted s' page_ref \<and>
           pr_freelist_base (mem s') page_ref = b \<and>
           pr_num_free (mem s') page_ref = int (PAGE_SIZE div 2 ^ (nat c + 3)) \<and>
           chain_nodes (mem s') (pr_freelist (mem s') page_ref) (PAGE_SIZE div 2 ^ (nat c + 3)) =
             slots b (2 ^ (nat c + 3)) (PAGE_SIZE div 2 ^ (nat c + 3))"
proof -
  define cs :: nat where "cs = 2 ^ (nat c + 3)"
  define n :: nat where "n = 2 ^ (9 - nat c)"
  note cf = class_size_facts [OF c]
  have ncs: "n * cs = PAGE_SIZE" and cs8: "8 \<le> cs"
    using cf(2,3) by (simp_all add: n_def cs_def)
  have sh: "shl1 (c + int BASE_CLASS) = Some (int cs)"
    using cf(1) by (simp add: cs_def)
  have ndiv: "PAGE_SIZE div cs = n"
    using ncs cs8 by (metis nonzero_mult_div_cancel_right not_numeral_le_zero)
  define m where "m = mem s"
  define m2 where "m2 = store_le (store_le m (page_ref + 8) 8 0) (page_ref + 24) 4 0"
  define s2 where "s2 = s\<lparr>mem := m2\<rparr>"
  have nf2: "pr_num_free (mem s2) page_ref = int 0"
    using load32_store32_val [of 0 0 "store_le m (page_ref + 8) 8 0" "page_ref + 24"]
    by (simp add: s2_def m2_def pr_num_free_def)
  have ch2: "chain_nodes (mem s2) (pr_freelist (mem s2) page_ref) 0 = slots b cs 0"
    by (simp add: slots_0)
  have "\<exists>m'. build_freelist s2 page_ref b cs (0 * cs) = Some (s2\<lparr>mem := m'\<rparr>) \<and>
           pr_num_free m' page_ref = int n \<and>
           chain_nodes m' (pr_freelist m' page_ref) n = slots b cs n \<and>
           (\<forall>x. (x < b \<or> b + PAGE_SIZE \<le> x) \<and> (x < page_ref + 8 \<or> page_ref + 16 \<le> x) \<and>
                (x < page_ref + 24 \<or> page_ref + 28 \<le> x) \<longrightarrow> m' x = mem s2 x)"
    using rec page hi
    by (intro build_freelist_chain cs8 ncs sep nf2 ch2) (simp_all add: s2_def in_heap_def)
  then obtain m3 where run3: "build_freelist s2 page_ref b cs 0 = Some (s\<lparr>mem := m3\<rparr>)"
    and nf3: "pr_num_free m3 page_ref = int n"
    and ch3: "chain_nodes m3 (pr_freelist m3 page_ref) n = slots b cs n"
    and fr3: "\<And>x. (x < b \<or> b + PAGE_SIZE \<le> x) \<Longrightarrow> (x < page_ref + 8 \<or> page_ref + 16 \<le> x) \<Longrightarrow>
                (x < page_ref + 24 \<or> page_ref + 28 \<le> x) \<Longrightarrow> m3 x = m2 x"
    by (auto simp: s2_def)
  have fb3: "pr_freelist_base m3 page_ref = b"
  proof -
    have "load_le m3 (page_ref + 16) 8 = load_le m2 (page_ref + 16) 8"
      using sep by (intro load_le_cong fr3) auto
    then show ?thesis
      using base by (simp add: pr_freelist_base_def m2_def load_store_le_other m_def)
  qed
  define m5 where "m5 = store_le (store_le m3 b 1 (nat (p mod 2 ^ 8))) (b + 4) 1 (nat (c mod 2 ^ 8))"
  define s5 where "s5 = s\<lparr>mem := m5\<rparr>"
  have rec_frame: "load_le m5 x k = load_le m3 x k" if "page_ref \<le> x" "x + k \<le> page_ref + 32" for x k
    using that sep by (auto simp: m5_def load_store_le_other PAGE_SIZE_def)
  have fb5: "pr_freelist_base m5 page_ref = b"
    using fb3 by (simp add: pr_freelist_base_def rec_frame)
  have nf5: "pr_num_free m5 page_ref = int n"
    using nf3 by (simp add: pr_num_free_def rec_frame)
  have fl5: "pr_freelist m5 page_ref = pr_freelist m3 page_ref"
    by (simp add: pr_freelist_def rec_frame)
  have run: "fill_page s page_ref b p c = Some s5"
    using rec page sep run3 fb3 sh
    by (auto simp: fill_page_def store64_def store32_def load64_def store8_def in_heap_def
        s2_def m2_def m_def s5_def m5_def pr_freelist_base_def load_store_le_other PAGE_SIZE_def)
  have "chain_nodes m5 (pr_freelist m3 page_ref) n = chain_nodes m3 (pr_freelist m3 page_ref) n"
  proof (rule chain_nodes_frame_butlast)
    fix q assume "q \<in> set (butlast (chain_nodes m3 (pr_freelist m3 page_ref) n))"
    then obtain j where "1 \<le> j" and q: "q = b + j * cs"
      by (auto simp: ch3 set_butlast_slots)
    then have "cs \<le> j * cs" by simp
    with cs8 have "8 \<le> j * cs" by (rule order_trans)
    then have "b + 8 \<le> q" by (simp add: q)
    then show "load_le m5 q 8 = load_le m3 q 8"
      by (simp add: m5_def load_store_le_other)
  qed
  with ch3 have ch5: "chain_nodes m5 (pr_freelist m5 page_ref) n = slots b cs n"
    by (simp add: fl5)
  have lay: "pageref_layout s5 page_ref"
    using rec page sep hi by (simp add: pageref_layout_def s5_def fb5 in_heap_def)
  have cnt: "freelist_counted s5 page_ref"
    using slots_apart [OF cs8, of b n] slots_blocks [OF cs8, of n b] ncs
    by (simp add: freelist_counted_def s5_def nf5 fb5 ch5)
  show ?thesis
    using run lay cnt fb5 nf5 ch5
    by (auto simp: s5_def ndiv cs_def [symmetric])
qed

section \<open>The count of free blocks\<close>

lemma pop_block_total:
  assumes L: "pageref_layout s page_ref"
    and C: "freelist_counted s page_ref"
    and pos: "0 < pr_num_free (mem s) page_ref"
  shows "\<exists>s' p. pop_block s page_ref = Some (s', p)"
proof -
  obtain k where n: "nat (pr_num_free (mem s) page_ref) = Suc k"
    using pos by (cases "nat (pr_num_free (mem s) page_ref)") simp_all
  from C have "block_of_page (pr_freelist_base (mem s) page_ref) (pr_freelist (mem s) page_ref)"
    by (simp add: freelist_counted_def n)
  with L have "in_heap s (pr_freelist (mem s) page_ref) 8"
    by (auto simp: pageref_layout_def block_of_page_def in_heap_def)
  with L show ?thesis
    by (simp add: pop_block_def load64_def load32_def store32_def store64_def pageref_layout_def
        in_heap_def pr_freelist_def)
qed

lemma push_block_total:
  assumes L: "pageref_layout s page_ref"
    and blk: "block_of_page (pr_freelist_base (mem s) page_ref) ptr"
  shows "\<exists>s'. push_block s page_ref ptr = Some s'"
proof -
  from L blk have h: "in_heap s ptr 8" and w: "ptr < 2 ^ 64"
    by (auto simp: pageref_layout_def block_of_page_def in_heap_def)
  from w have "load_le (store_le (mem s) (page_ref + 8) 8 ptr) (page_ref + 8) 8 = ptr"
    by (simp add: load64_store64_same)
  with L h show ?thesis
    by (simp add: push_block_def load64_def load32_def store32_def store64_def pageref_layout_def
        in_heap_def)
qed

lemmas view_defs = pr_next_def pr_freelist_def pr_freelist_base_def pr_num_free_def
  pageref_layout_def freelist_counted_def block_of_page_def reaches_null_after_def

text \<open>
  C4, as stated: after every operation \<open>num_free\<close> is the number of nodes reachable from the
  freelist head. In the code, after the first \<^verbatim>\<open>allocate(2048)\<close> on a fresh arena (the page's
  freelist built, one block popped), \<open>num_free\<close> is 1 and the head is the base block at 73728,
  but the link of that node is not null: \<^verbatim>\<open>allocate_pageref\<close> wrote the metadata bytes over it
  (class 8 in byte 4), so the chain does not end after one node.
\<close>

theorem freelist_null_terminated_counterexample:
  "do {
     (s1, r) \<leftarrow> mm_init env_example (initial_state (\<lambda>_. 0));
     (s2, p) \<leftarrow> mm_malloc s1 0 2048;
     pr \<leftarrow> pageref_head s2 0 8;
     Some (pr_num_free (mem s2) pr, chain_nodes (mem s2) (pr_freelist (mem s2) pr) 1,
       chain_end (mem s2) (pr_freelist (mem s2) pr) 1,
       reaches_null_after (mem s2) (pr_freelist (mem s2) pr) (nat (pr_num_free (mem s2) pr)))
   } = Some (1, [73728], 34359738368, False)"
  by (simp add: run_defs view_defs cong: run_congs)

text \<open>
  C4, amended. \<open>num_free\<close> is the length of a chain of nodes from the freelist head: those
  nodes are nodes of the page, their link fields do not overlap, so they are distinct and the
  chain does not come back on itself; the link of the last node need not be null. This holds
  after the freelist of a page is built (lines 304-319, where \<open>num_free\<close> becomes
  \<open>4096 / class size\<close>), it is kept by the pop of \<^verbatim>\<open>subpage_mm_malloc\<close> (lines 370-376), which
  removes the first node, and by the push of \<^verbatim>\<open>subpage_mm_free\<close> (lines 409-414) of a block of
  the page whose link field overlaps no free node, which adds the block in front. Each of the
  three returns a state when the page-ref and its page lie in the heap.
\<close>

theorem num_free_counts_chain:
  "(0 \<le> c \<and> c \<le> 8 \<and> in_heap s page_ref 32 \<and> in_heap s b PAGE_SIZE \<and>
      (page_ref + 32 \<le> b \<or> b + PAGE_SIZE \<le> page_ref) \<and> dseg_hi s \<le> 2 ^ 64 \<and>
      pr_freelist_base (mem s) page_ref = b \<longrightarrow>
    (\<exists>s'. fill_page s page_ref b p c = Some s' \<and>
       pageref_layout s' page_ref \<and> freelist_counted s' page_ref \<and>
       pr_num_free (mem s') page_ref = int (PAGE_SIZE div 2 ^ (nat c + 3)) \<and>
       distinct (chain_nodes (mem s') (pr_freelist (mem s') page_ref)
         (nat (pr_num_free (mem s') page_ref))))) \<and>
   (pageref_layout s page_ref \<and> freelist_counted s page_ref \<and>
      0 < pr_num_free (mem s) page_ref \<longrightarrow>
    (\<exists>s' q. pop_block s page_ref = Some (s', q) \<and>
       pageref_layout s' page_ref \<and> freelist_counted s' page_ref \<and>
       pr_num_free (mem s') page_ref = pr_num_free (mem s) page_ref - 1 \<and>
       chain_nodes (mem s') (pr_freelist (mem s') page_ref) (nat (pr_num_free (mem s') page_ref)) =
         tl (chain_nodes (mem s) (pr_freelist (mem s) page_ref)
           (nat (pr_num_free (mem s) page_ref))) \<and>
       distinct (chain_nodes (mem s') (pr_freelist (mem s') page_ref)
         (nat (pr_num_free (mem s') page_ref))))) \<and>
   (pageref_layout s page_ref \<and> freelist_counted s page_ref \<and>
      block_of_page (pr_freelist_base (mem s) page_ref) ptr \<and>
      list_all (\<lambda>r. ptr + 8 \<le> r \<or> r + 8 \<le> ptr)
        (chain_nodes (mem s) (pr_freelist (mem s) page_ref) (nat (pr_num_free (mem s) page_ref))) \<longrightarrow>
    (\<exists>s'. push_block s page_ref ptr = Some s' \<and>
       pageref_layout s' page_ref \<and> freelist_counted s' page_ref \<and>
       pr_num_free (mem s') page_ref = pr_num_free (mem s) page_ref + 1 \<and>
       chain_nodes (mem s') (pr_freelist (mem s') page_ref) (nat (pr_num_free (mem s') page_ref)) =
         ptr # chain_nodes (mem s) (pr_freelist (mem s) page_ref)
           (nat (pr_num_free (mem s) page_ref)) \<and>
       distinct (chain_nodes (mem s') (pr_freelist (mem s') page_ref)
         (nat (pr_num_free (mem s') page_ref)))))"
proof (intro conjI impI)
  assume h: "0 \<le> c \<and> c \<le> 8 \<and> in_heap s page_ref 32 \<and> in_heap s b PAGE_SIZE \<and>
      (page_ref + 32 \<le> b \<or> b + PAGE_SIZE \<le> page_ref) \<and> dseg_hi s \<le> 2 ^ 64 \<and>
      pr_freelist_base (mem s) page_ref = b"
  then obtain s' where run: "fill_page s page_ref b p c = Some s'"
    and r: "pageref_layout s' page_ref" "freelist_counted s' page_ref"
      "pr_num_free (mem s') page_ref = int (PAGE_SIZE div 2 ^ (nat c + 3))"
    using fill_page_counted [of c s page_ref b p] by blast
  from r(2) have "distinct (chain_nodes (mem s') (pr_freelist (mem s') page_ref)
         (nat (pr_num_free (mem s') page_ref)))"
    by (simp add: freelist_counted_def apart_distinct)
  with run r show "\<exists>s'. fill_page s page_ref b p c = Some s' \<and>
       pageref_layout s' page_ref \<and> freelist_counted s' page_ref \<and>
       pr_num_free (mem s') page_ref = int (PAGE_SIZE div 2 ^ (nat c + 3)) \<and>
       distinct (chain_nodes (mem s') (pr_freelist (mem s') page_ref)
         (nat (pr_num_free (mem s') page_ref)))"
    by blast
next
  assume h: "pageref_layout s page_ref \<and> freelist_counted s page_ref \<and>
      0 < pr_num_free (mem s) page_ref"
  then obtain s' q where run: "pop_block s page_ref = Some (s', q)"
    using pop_block_total by blast
  from h run have r: "pageref_layout s' page_ref" "freelist_counted s' page_ref"
    "pr_num_free (mem s') page_ref = pr_num_free (mem s) page_ref - 1"
    "chain_nodes (mem s') (pr_freelist (mem s') page_ref) (nat (pr_num_free (mem s') page_ref)) =
         tl (chain_nodes (mem s) (pr_freelist (mem s) page_ref)
           (nat (pr_num_free (mem s) page_ref)))"
    using pop_block_counted [of s page_ref s' q] by blast+
  from r(2) have "distinct (chain_nodes (mem s') (pr_freelist (mem s') page_ref)
         (nat (pr_num_free (mem s') page_ref)))"
    by (simp add: freelist_counted_def apart_distinct)
  with run r show "\<exists>s' q. pop_block s page_ref = Some (s', q) \<and>
       pageref_layout s' page_ref \<and> freelist_counted s' page_ref \<and>
       pr_num_free (mem s') page_ref = pr_num_free (mem s) page_ref - 1 \<and>
       chain_nodes (mem s') (pr_freelist (mem s') page_ref) (nat (pr_num_free (mem s') page_ref)) =
         tl (chain_nodes (mem s) (pr_freelist (mem s) page_ref)
           (nat (pr_num_free (mem s) page_ref))) \<and>
       distinct (chain_nodes (mem s') (pr_freelist (mem s') page_ref)
         (nat (pr_num_free (mem s') page_ref)))"
    by blast
next
  assume h: "pageref_layout s page_ref \<and> freelist_counted s page_ref \<and>
      block_of_page (pr_freelist_base (mem s) page_ref) ptr \<and>
      list_all (\<lambda>r. ptr + 8 \<le> r \<or> r + 8 \<le> ptr)
        (chain_nodes (mem s) (pr_freelist (mem s) page_ref) (nat (pr_num_free (mem s) page_ref)))"
  then obtain s' where run: "push_block s page_ref ptr = Some s'"
    using push_block_total by blast
  from h run have r: "pageref_layout s' page_ref" "freelist_counted s' page_ref"
    "pr_num_free (mem s') page_ref = pr_num_free (mem s) page_ref + 1"
    "chain_nodes (mem s') (pr_freelist (mem s') page_ref) (nat (pr_num_free (mem s') page_ref)) =
         ptr # chain_nodes (mem s) (pr_freelist (mem s) page_ref)
           (nat (pr_num_free (mem s) page_ref))"
    using push_block_counted [of s page_ref ptr s'] by blast+
  from r(2) have "distinct (chain_nodes (mem s') (pr_freelist (mem s') page_ref)
         (nat (pr_num_free (mem s') page_ref)))"
    by (simp add: freelist_counted_def apart_distinct)
  with run r show "\<exists>s'. push_block s page_ref ptr = Some s' \<and>
       pageref_layout s' page_ref \<and> freelist_counted s' page_ref \<and>
       pr_num_free (mem s') page_ref = pr_num_free (mem s) page_ref + 1 \<and>
       chain_nodes (mem s') (pr_freelist (mem s') page_ref) (nat (pr_num_free (mem s') page_ref)) =
         ptr # chain_nodes (mem s) (pr_freelist (mem s) page_ref)
           (nat (pr_num_free (mem s) page_ref)) \<and>
       distinct (chain_nodes (mem s') (pr_freelist (mem s') page_ref)
         (nat (pr_num_free (mem s') page_ref)))"
    by blast
qed

theorem num_free_counts_chain_witness:
  "\<exists>s. do {
       (s1, r) \<leftarrow> mm_init env_example (initial_state (\<lambda>_. 0));
       (s2, p) \<leftarrow> mm_malloc s1 0 2048;
       Some s2
     } = Some s \<and> in_heap s 69632 32 \<and> in_heap s 73728 PAGE_SIZE \<and> dseg_hi s \<le> 2 ^ 64 \<and>
     pageref_layout s 69632 \<and> freelist_counted s 69632 \<and>
     pr_num_free (mem s) 69632 = 1 \<and> pr_freelist_base (mem s) 69632 = 73728 \<and>
     chain_nodes (mem s) (pr_freelist (mem s) 69632) 1 = [73728] \<and>
     block_of_page 73728 75776 \<and>
     (\<exists>s'. fill_page s 69632 73728 0 8 = Some s' \<and> freelist_counted s' 69632 \<and>
        pr_num_free (mem s') 69632 = 2) \<and>
     (\<exists>s' q. pop_block s 69632 = Some (s', q) \<and> freelist_counted s' 69632 \<and>
        pr_num_free (mem s') 69632 = 0) \<and>
     (\<exists>s'. push_block s 69632 75776 = Some s' \<and> freelist_counted s' 69632 \<and>
        pr_num_free (mem s') 69632 = 2 \<and>
        chain_nodes (mem s') (pr_freelist (mem s') 69632) 2 = [75776, 73728])"
proof -
  have "\<exists>s. do {
       (s1, r) \<leftarrow> mm_init env_example (initial_state (\<lambda>_. 0));
       (s2, p) \<leftarrow> mm_malloc s1 0 2048;
       Some s2
     } = Some s \<and> in_heap s 69632 32 \<and> in_heap s 73728 PAGE_SIZE \<and> dseg_hi s \<le> 2 ^ 64 \<and>
     pageref_layout s 69632 \<and> freelist_counted s 69632 \<and>
     pr_num_free (mem s) 69632 = 1 \<and> pr_freelist_base (mem s) 69632 = 73728 \<and>
     chain_nodes (mem s) (pr_freelist (mem s) 69632) 1 = [73728]"
    by (simp add: run_defs view_defs cong: run_congs)
  then obtain s where run: "do {
       (s1, r) \<leftarrow> mm_init env_example (initial_state (\<lambda>_. 0));
       (s2, p) \<leftarrow> mm_malloc s1 0 2048;
       Some s2
     } = Some s"
    and rec: "in_heap s 69632 32" and page: "in_heap s 73728 PAGE_SIZE"
    and hi: "dseg_hi s \<le> 2 ^ 64"
    and L: "pageref_layout s 69632" and C: "freelist_counted s 69632"
    and nf: "pr_num_free (mem s) 69632 = 1" and fb: "pr_freelist_base (mem s) 69632 = 73728"
    and ch: "chain_nodes (mem s) (pr_freelist (mem s) 69632) 1 = [73728]"
    by blast
  have blk: "block_of_page 73728 75776"
    by (simp add: block_of_page_def PAGE_SIZE_def)
  note inst = num_free_counts_chain [where s = s and page_ref = 69632 and b = 73728 and c = 8
      and p = 0 and ptr = 75776]
  have a: "\<exists>s'. fill_page s 69632 73728 0 8 = Some s' \<and> freelist_counted s' 69632 \<and>
        pr_num_free (mem s') 69632 = 2"
    using inst rec page hi fb by (simp add: PAGE_SIZE_def) blast
  have b: "\<exists>s' q. pop_block s 69632 = Some (s', q) \<and> freelist_counted s' 69632 \<and>
        pr_num_free (mem s') 69632 = 0"
    using inst L C nf by simp blast
  have c: "\<exists>s'. push_block s 69632 75776 = Some s' \<and> freelist_counted s' 69632 \<and>
        pr_num_free (mem s') 69632 = 2 \<and>
        chain_nodes (mem s') (pr_freelist (mem s') 69632) 2 = [75776, 73728]"
  proof -
    from inst L C nf fb ch blk obtain s' where r: "push_block s 69632 75776 = Some s'"
      "freelist_counted s' 69632" "pr_num_free (mem s') 69632 = 2"
      "chain_nodes (mem s') (pr_freelist (mem s') 69632) (nat (pr_num_free (mem s') 69632)) =
         [75776, 73728]"
      by auto
    from r(4) have "chain_nodes (mem s') (pr_freelist (mem s') 69632) 2 = [75776, 73728]"
      by (simp add: r(3))
    with r show ?thesis by blast
  qed
  from run rec page hi L C nf fb ch blk a b c show ?thesis by blast
qed

section \<open>Blocks and the metadata words\<close>

lemma push_block_head:
  assumes L: "pageref_layout t page_ref"
    and blk: "block_of_page (pr_freelist_base (mem t) page_ref) ptr"
    and run: "push_block t page_ref ptr = Some t'"
  shows "pr_freelist (mem t') page_ref = ptr"
    and "pr_freelist_base (mem t') page_ref = pr_freelist_base (mem t) page_ref"
    and "pageref_layout t' page_ref"
proof -
  from block_sep [OF L blk] have psep: "page_ref + 32 \<le> ptr \<or> ptr + 8 \<le> page_ref" .
  from L blk have pw: "ptr < 2 ^ 64"
    by (auto simp: pageref_layout_def block_of_page_def in_heap_def)
  note eff = push_block_effect [OF run psep pw]
  show fl: "pr_freelist (mem t') page_ref = ptr"
    using psep pw
    by (subst eff(1)) (auto simp: pr_freelist_def load_store_le_other load64_store64_same)
  show fb: "pr_freelist_base (mem t') page_ref = pr_freelist_base (mem t) page_ref"
    using psep
    by (subst eff(1)) (auto simp: pr_freelist_base_def load_store_le_other)
  show "pageref_layout t' page_ref"
    using L unfolding pageref_layout_def fb by (subst (1 2 3) eff(1)) simp
qed

text \<open>
  C9. When the freelist of a page-ref is a counted chain of nodes of its page, the pop of
  \<^verbatim>\<open>subpage_mm_malloc\<close> returns a pointer \<open>p\<close> at least 8 bytes past the page base, so clear of
  the two metadata words: \<open>page base + 8\<close> when the popped node is the page base, the node itself
  otherwise. In any later state with the same page bound, the push of \<^verbatim>\<open>subpage_mm_free\<close> makes
  \<open>p\<close> itself the head of the freelist, and the next pop returns \<open>p\<close> again.
\<close>

theorem popped_block_clear_of_metadata:
  assumes L: "pageref_layout s page_ref"
    and C: "freelist_counted s page_ref"
    and pos: "0 < pr_num_free (mem s) page_ref"
  shows "\<exists>s1 p. pop_block s page_ref = Some (s1, p) \<and>
     pr_freelist_base (mem s) page_ref + 8 \<le> p \<and>
     p + 8 \<le> pr_freelist_base (mem s) page_ref + PAGE_SIZE \<and>
     (pr_freelist (mem s) page_ref = pr_freelist_base (mem s) page_ref \<longrightarrow>
        p = pr_freelist_base (mem s) page_ref + 8) \<and>
     (pr_freelist (mem s) page_ref \<noteq> pr_freelist_base (mem s) page_ref \<longrightarrow>
        p = pr_freelist (mem s) page_ref) \<and>
     (\<forall>t t'. pageref_layout t page_ref \<and>
        pr_freelist_base (mem t) page_ref = pr_freelist_base (mem s) page_ref \<and>
        push_block t page_ref p = Some t' \<longrightarrow>
          pr_freelist (mem t') page_ref = p \<and>
          pr_freelist_base (mem t') page_ref = pr_freelist_base (mem s) page_ref \<and>
          (\<forall>u p'. pop_block t' page_ref = Some (u, p') \<longrightarrow> p' = p))"
proof -
  define b where "b = pr_freelist_base (mem s) page_ref"
  define h where "h = pr_freelist (mem s) page_ref"
  obtain s1 p where run: "pop_block s page_ref = Some (s1, p)"
    using pop_block_total [OF L C pos] by blast
  from pop_block_counted [OF L C pos run]
  have p: "p = (if h = b then b + 8 else h)" by (simp add: h_def b_def)
  obtain k where n: "nat (pr_num_free (mem s) page_ref) = Suc k"
    using pos by (cases "nat (pr_num_free (mem s) page_ref)") simp_all
  from C have hb: "block_of_page b h"
    by (simp add: freelist_counted_def n h_def b_def)
  from hb p have lo: "b + 8 \<le> p" and up: "p + 8 \<le> b + PAGE_SIZE"
    by (auto simp: block_of_page_def PAGE_SIZE_def)
  then have pb: "block_of_page b p" by (simp add: block_of_page_def)
  have later: "pr_freelist (mem t') page_ref = p \<and> pr_freelist_base (mem t') page_ref = b \<and>
      (\<forall>u p'. pop_block t' page_ref = Some (u, p') \<longrightarrow> p' = p)"
    if t: "pageref_layout t page_ref" "pr_freelist_base (mem t) page_ref = b"
      "push_block t page_ref p = Some t'" for t t'
  proof -
    from pb t(2) have blk: "block_of_page (pr_freelist_base (mem t) page_ref) p" by simp
    note ph = push_block_head [OF t(1) blk t(3)]
    have again: "p' = p" if "pop_block t' page_ref = Some (u, p')" for u p'
    proof -
      from ph(2) t(2) pb have "block_of_page (pr_freelist_base (mem t') page_ref) p" by simp
      from block_sep [OF ph(3) this]
      have "page_ref + 32 \<le> pr_freelist (mem t') page_ref \<or>
            pr_freelist (mem t') page_ref + 8 \<le> page_ref"
        by (simp add: ph(1))
      from pop_block_effect(2) [OF that this] lo show ?thesis
        by (simp add: ph t(2))
    qed
    with ph t(2) show ?thesis by simp
  qed
  from p have pa: "h = b \<longrightarrow> p = b + 8" and pn: "h \<noteq> b \<longrightarrow> p = h"
    by simp_all
  from later have post: "\<forall>t t'. pageref_layout t page_ref \<and>
        pr_freelist_base (mem t) page_ref = b \<and> push_block t page_ref p = Some t' \<longrightarrow>
          pr_freelist (mem t') page_ref = p \<and> pr_freelist_base (mem t') page_ref = b \<and>
          (\<forall>u p'. pop_block t' page_ref = Some (u, p') \<longrightarrow> p' = p)"
    by blast
  show ?thesis
    unfolding b_def [symmetric] h_def [symmetric]
    using run lo up pa pn post by blast
qed

theorem popped_block_clear_of_metadata_witness:
  "\<exists>s. do {
       (s1, r) \<leftarrow> mm_init env_example (initial_state (\<lambda>_. 0));
       (s2, p) \<leftarrow> mm_malloc s1 0 1500;
       Some s2
     } = Some s \<and> pageref_head s 0 8 = Some 69632 \<and>
     pageref_layout s 69632 \<and> freelist_counted s 69632 \<and>
     0 < pr_num_free (mem s) 69632 \<and> pr_freelist (mem s) 69632 = 73728 \<and>
     pr_freelist_base (mem s) 69632 = 73728 \<and>
     (\<exists>s1. pop_block s 69632 = Some (s1, 73736))"
proof -
  have "\<exists>s. do {
       (s1, r) \<leftarrow> mm_init env_example (initial_state (\<lambda>_. 0));
       (s2, p) \<leftarrow> mm_malloc s1 0 1500;
       Some s2
     } = Some s \<and> pageref_head s 0 8 = Some 69632 \<and>
     pageref_layout s 69632 \<and> freelist_counted s 69632 \<and>
     0 < pr_num_free (mem s) 69632 \<and> pr_freelist (mem s) 69632 = 73728 \<and>
     pr_freelist_base (mem s) 69632 = 73728"
    by (simp add: run_defs view_defs cong: run_congs)
  then obtain s where run: "do {
       (s1, r) \<leftarrow> mm_init env_example (initial_state (\<lambda>_. 0));
       (s2, p) \<leftarrow> mm_malloc s1 0 1500;
       Some s2
     } = Some s" and hd: "pageref_head s 0 8 = Some 69632"
    and L: "pageref_layout s 69632" and C: "freelist_counted s 69632"
    and pos: "0 < pr_num_free (mem s) 69632"
    and fl: "pr_freelist (mem s) 69632 = 73728" and fb: "pr_freelist_base (mem s) 69632 = 73728"
    by blast
  from popped_block_clear_of_metadata [OF L C pos] fl fb
  have "\<exists>s1. pop_block s 69632 = Some (s1, 73736)"
    by auto
  with run hd L C pos fl fb show ?thesis by blast
qed

section \<open>Releasing an empty page\<close>

lemma build_freelist_dseg:
  "build_freelist s page_ref b cs i = Some s' \<Longrightarrow>
   dseg_hi s' = dseg_hi s \<and> dseg_lo s' = dseg_lo s \<and>
   reusable_page_refs s' = reusable_page_refs s"
proof (induction s page_ref b cs i rule: build_freelist.induct)
  case (1 s page_ref b cs i)
  show ?case
  proof (cases "i < PAGE_SIZE \<and> 0 < cs")
    case False
    with "1.prems" show ?thesis
      by (subst (asm) build_freelist.simps) simp
  next
    case True
    with "1.prems" obtain fl s1 s2 nf s3 where
      a: "load64 s (page_ref + 8) = Some fl" "store64 s (b + i) fl = Some s1"
         "store64 s1 (page_ref + 8) (b + i) = Some s2" "load32 s2 (page_ref + 24) = Some nf"
         "store32 s2 (page_ref + 24) (nf + 1) = Some s3"
      and rest: "build_freelist s3 page_ref b cs (i + cs) = Some s'"
      by (subst (asm) build_freelist.simps) (auto simp: bind_eq_Some_conv Let_def)
    from "1.IH" [OF True refl a rest]
    have "dseg_hi s' = dseg_hi s3 \<and> dseg_lo s' = dseg_lo s3 \<and>
          reusable_page_refs s' = reusable_page_refs s3" .
    moreover from a have "dseg_hi s3 = dseg_hi s \<and> dseg_lo s3 = dseg_lo s \<and>
          reusable_page_refs s3 = reusable_page_refs s"
      by (auto simp: access_Some)
    ultimately show ?thesis by simp
  qed
qed

lemma fill_page_dseg:
  "fill_page s page_ref b p c = Some s' \<Longrightarrow> dseg_hi s' = dseg_hi s"
  by (auto simp: fill_page_def bind_eq_Some_conv access_Some dest!: build_freelist_dseg)

lemma allocate_pageref_reuse:
  assumes "reusable_page_refs s \<noteq> 0"
    and "allocate_pageref s p c = Some (s', page_ref)"
  shows "page_ref = reusable_page_refs s \<and> dseg_hi s' = dseg_hi s"
  using assms
  by (auto simp: allocate_pageref_def bind_eq_Some_conv access_Some pageref_head_def
      set_pageref_head_def dest!: fill_page_dseg)

lemma pageref_path_frame:
  "(\<And>q. q \<in> set qs \<Longrightarrow> pr_next m' q = pr_next m q) \<Longrightarrow>
   pageref_path m' p qs = pageref_path m p qs"
  by (induction qs arbitrary: p) simp_all

lemma records_apart_append:
  "records_apart (xs @ ys) =
     (records_apart xs \<and> records_apart ys \<and>
      list_all (\<lambda>x. list_all (\<lambda>r. x + 32 \<le> r \<or> r + 32 \<le> x) ys) xs)"
  by (induction xs) (auto simp: list_all_iff)

text \<open>The search of \<^verbatim>\<open>subpage_mm_free\<close> stops at the first page-ref bound to the page.\<close>

lemma locate_page_ref_path:
  assumes "pageref_path (mem s) start (xs @ page_ref # ys)"
    and "list_all (\<lambda>x. pr_freelist_base (mem s) x \<noteq> page_head) xs"
    and "pr_freelist_base (mem s) page_ref = page_head"
    and "list_all (\<lambda>q. in_heap s q 32) (xs @ [page_ref])"
  shows "locate_page_ref s page_head prior start =
           Some (if xs = [] then prior else last xs, page_ref)"
  using assms
proof (induction xs arbitrary: prior start)
  case Nil
  then show ?case
    by (subst locate_page_ref.simps)
       (simp add: load64_def in_heap_def pr_freelist_base_def)
next
  case (Cons x xs)
  from Cons.prems have st: "start = x" "x \<noteq> 0"
    and path: "pageref_path (mem s) (pr_next (mem s) x) (xs @ page_ref # ys)"
    and nb: "pr_freelist_base (mem s) x \<noteq> page_head"
    and hx: "in_heap s x 32"
    by simp_all
  have "locate_page_ref s page_head prior start =
        locate_page_ref s page_head x (pr_next (mem s) x)"
    using st nb hx
    by (subst locate_page_ref.simps)
       (simp add: load64_def in_heap_def pr_freelist_base_def pr_next_def)
  also have "\<dots> = Some (if xs = [] then x else last xs, page_ref)"
    using Cons.prems by (intro Cons.IH path) simp_all
  finally show ?case by simp
qed

text \<open>
  Unlinking: when the page-ref before \<open>page_ref\<close> (or the list head) is made to point to its
  successor and no other \<open>next\<close> field of the list changes, the list is the old one without
  \<open>page_ref\<close>.
\<close>

lemma pageref_path_unlink:
  assumes "pageref_path m start (xs @ page_ref # ys)"
    and "\<And>q. q \<in> set (butlast xs) \<union> set ys \<Longrightarrow> pr_next m' q = pr_next m q"
    and "xs \<noteq> [] \<Longrightarrow> pr_next m' (last xs) = pr_next m page_ref"
  shows "pageref_path m' (if xs = [] then pr_next m page_ref else start) (xs @ ys)"
  using assms
proof (induction xs arbitrary: start)
  case Nil
  then have "pageref_path m (pr_next m page_ref) ys" by simp
  moreover have "pageref_path m' (pr_next m page_ref) ys = pageref_path m (pr_next m page_ref) ys"
    by (rule pageref_path_frame) (simp add: Nil.prems(2))
  ultimately show ?case by simp
next
  case (Cons x xs)
  from Cons.prems(1) have st: "start = x" "x \<noteq> 0"
    and path: "pageref_path m (pr_next m x) (xs @ page_ref # ys)"
    by simp_all
  show ?case
  proof (cases "xs = []")
    case True
    with path have "pageref_path m (pr_next m page_ref) ys" by simp
    moreover have "pageref_path m' (pr_next m page_ref) ys = pageref_path m (pr_next m page_ref) ys"
      by (rule pageref_path_frame) (simp add: Cons.prems(2))
    moreover from Cons.prems(3) True have "pr_next m' x = pr_next m page_ref" by simp
    ultimately show ?thesis using st True by simp
  next
    case False
    then have nx: "pr_next m' x = pr_next m x"
      by (intro Cons.prems(2)) simp
    have "pageref_path m' (if xs = [] then pr_next m page_ref else pr_next m x) (xs @ ys)"
      using Cons.prems(2,3) False by (intro Cons.IH path) auto
    with False st nx show ?thesis by simp
  qed
qed

lemma records_apart_last:
  assumes "records_apart xs" and "q \<in> set (butlast xs)"
  shows "q + 32 \<le> last xs \<or> last xs + 32 \<le> q"
proof -
  from assms(2) have ne: "xs \<noteq> []" by auto
  then have "xs = butlast xs @ [last xs]" by simp
  with assms(1) have "records_apart (butlast xs @ [last xs])" by simp
  then have "list_all (\<lambda>x. list_all (\<lambda>r. x + 32 \<le> r \<or> r + 32 \<le> x) [last xs]) (butlast xs)"
    unfolding records_apart_append by blast
  with assms(2) show ?thesis by (simp add: list_all_iff)
qed

lemma pageref_path_nonnull: "pageref_path m p qs \<Longrightarrow> 0 \<notin> set qs"
  by (induction qs arbitrary: p) auto

lemma push_block_run:
  assumes L: "pageref_layout s page_ref"
    and blk: "block_of_page (pr_freelist_base (mem s) page_ref) ptr"
  shows "push_block s page_ref ptr =
     Some (s\<lparr>mem := store_le (store_le (store_le (mem s) (page_ref + 8) 8 ptr) ptr 8
                       (pr_freelist (mem s) page_ref)) (page_ref + 24) 4
                       (nat ((pr_num_free (mem s) page_ref + 1) mod 2 ^ 32))\<rparr>)"
proof -
  obtain s' where run: "push_block s page_ref ptr = Some s'"
    using push_block_total [OF L blk] by blast
  from block_sep [OF L blk] have psep: "page_ref + 32 \<le> ptr \<or> ptr + 8 \<le> page_ref" .
  from L blk have pw: "ptr < 2 ^ 64"
    by (auto simp: pageref_layout_def block_of_page_def in_heap_def)
  from push_block_effect(1) [OF run psep pw] run show ?thesis by simp
qed

text \<open>
  C7. A call of \<^verbatim>\<open>subpage_mm_free\<close> that raises \<open>num_free\<close> of the page-ref bound to the pointer's
  page to \<open>4096 / class size\<close>. The state: the page carries the metadata \<open>(p, c)\<close> of a valid
  class; the list of \<open>(p, c)\<close> is \<open>xs @ page_ref # ys\<close>, with \<open>page_ref\<close> the first page-ref
  bound to the page; the records of the list, the directory slot and the page lie in the heap
  and do not overlap. Then the call returns 1, the list of \<open>(p, c)\<close> is \<open>xs @ ys\<close>, every byte of
  the page is zero, \<open>page_ref\<close> is the head of the reusable list, its \<open>next\<close> is the old head,
  it is still bound to the page, and the next \<^verbatim>\<open>allocate_pageref\<close>, for any processor and
  class, returns this page-ref without moving the break: no \<^verbatim>\<open>mem_sbrk\<close> takes place.
\<close>

theorem empty_page_goes_to_reusable_list:
  assumes hi: "dseg_hi s \<le> 2 ^ 64"
    and ph: "get_page_head s ptr = page_head"
    and page: "in_heap s page_head PAGE_SIZE"
    and blk: "block_of_page page_head ptr"
    and meta: "load32 s page_head = Some p" "p \<noteq> - 1" "load32 s (page_head + 4) = Some c"
    and c: "0 \<le> c" "c \<le> 8"
    and slot: "pageref_slot s p c = slot" "in_heap s slot 8"
      "slot + 8 \<le> page_head \<or> page_head + PAGE_SIZE \<le> slot"
    and path: "pageref_path (mem s) (load_le (mem s) slot 8) (xs @ page_ref # ys)"
    and first: "list_all (\<lambda>x. pr_freelist_base (mem s) x \<noteq> page_head) xs"
      "pr_freelist_base (mem s) page_ref = page_head"
    and apartR: "records_apart (xs @ page_ref # ys)"
    and recs: "list_all (\<lambda>q. in_heap s q 32 \<and>
                 (q + 32 \<le> page_head \<or> page_head + PAGE_SIZE \<le> q) \<and>
                 (q + 32 \<le> slot \<or> slot + 8 \<le> q)) (xs @ page_ref # ys)"
    and full: "pr_num_free (mem s) page_ref + 1 = int (PAGE_SIZE div 2 ^ (nat c + 3))"
    and reus: "reusable_page_refs s < 2 ^ 64"
  shows "\<exists>s'. subpage_mm_free s ptr = Some (s', 1) \<and>
      pageref_path (mem s') (load_le (mem s') slot 8) (xs @ ys) \<and>
      (\<forall>a. page_head \<le> a \<and> a < page_head + PAGE_SIZE \<longrightarrow> mem s' a = 0) \<and>
      reusable_page_refs s' = page_ref \<and> pr_next (mem s') page_ref = reusable_page_refs s \<and>
      pr_freelist_base (mem s') page_ref = page_head \<and>
      (\<forall>p2 c2 s'' pr2. allocate_pageref s' p2 c2 = Some (s'', pr2) \<longrightarrow>
         pr2 = page_ref \<and> dseg_hi s'' = dseg_hi s')"
proof -
  define m where "m = mem s"
  define hd where "hd = load_le m slot 8"
  define nf where "nf = pr_num_free m page_ref"
  define cs :: nat where "cs = 2 ^ (nat c + 3)"
  define prior where "prior = (if xs = [] then 0 else last xs)"
  define target where "target = (if xs = [] then slot else last xs)"
  define nx where "nx = pr_next m page_ref"
  note cf = class_size_facts [OF c]
  \<comment> \<open>the page-ref record\<close>
  from recs have rec: "in_heap s page_ref 32"
    and rec_page: "page_ref + 32 \<le> page_head \<or> page_head + PAGE_SIZE \<le> page_ref"
    and rec_slot: "page_ref + 32 \<le> slot \<or> slot + 8 \<le> page_ref"
    by simp_all
  have L: "pageref_layout s page_ref"
    using rec page rec_page hi first(2) by (simp add: pageref_layout_def)
  have blk': "block_of_page (pr_freelist_base (mem s) page_ref) ptr"
    using blk first(2) by simp
  from blk have ptr_page: "page_head \<le> ptr" "ptr + 8 \<le> page_head + PAGE_SIZE"
    by (auto simp: block_of_page_def)
  from path have nonnull: "0 \<notin> set (xs @ page_ref # ys)"
    by (rule pageref_path_nonnull)
  then have pr0: "page_ref \<noteq> 0" by auto
  have prior0: "prior \<noteq> 0 \<longleftrightarrow> xs \<noteq> []"
  proof (cases "xs = []")
    case True
    then show ?thesis by (simp add: prior_def)
  next
    case False
    then have "last xs \<in> set xs" by simp
    moreover from nonnull have "0 \<notin> set xs" by simp
    ultimately have "last xs \<noteq> 0" by metis
    with False show ?thesis by (simp add: prior_def)
  qed
  \<comment> \<open>the record before, when there is one\<close>
  have lastx: "in_heap s (last xs) 32 \<and>
      (last xs + 32 \<le> page_head \<or> page_head + PAGE_SIZE \<le> last xs) \<and>
      (last xs + 32 \<le> slot \<or> slot + 8 \<le> last xs) \<and>
      (last xs + 32 \<le> page_ref \<or> page_ref + 32 \<le> last xs)" if "xs \<noteq> []"
  proof -
    from that have mem: "last xs \<in> set xs" by simp
    with recs have a: "in_heap s (last xs) 32 \<and>
      (last xs + 32 \<le> page_head \<or> page_head + PAGE_SIZE \<le> last xs) \<and>
      (last xs + 32 \<le> slot \<or> slot + 8 \<le> last xs)"
      by (simp add: list_all_iff)
    from apartR have "list_all (\<lambda>x. list_all (\<lambda>r. x + 32 \<le> r \<or> r + 32 \<le> x) (page_ref # ys)) xs"
      unfolding records_apart_append by blast
    with mem have "last xs + 32 \<le> page_ref \<or> page_ref + 32 \<le> last xs"
      by (simp add: list_all_iff)
    with a show ?thesis by simp
  qed
  have target_heap: "in_heap s target 8"
    using slot(2) lastx by (auto simp: target_def in_heap_def)
  have target_rec: "target + 8 \<le> page_ref \<or> page_ref + 32 \<le> target"
    using rec_slot lastx by (auto simp: target_def)
  have target_page: "target + 8 \<le> page_head \<or> page_head + PAGE_SIZE \<le> target"
    using slot(3) lastx by (auto simp: target_def)
  \<comment> \<open>the memory after each step\<close>
  define m1 where "m1 = store_le (store_le (store_le m (page_ref + 8) 8 ptr) ptr 8
      (pr_freelist m page_ref)) (page_ref + 24) 4 (nat ((nf + 1) mod 2 ^ 32))"
  define m2 where "m2 = store_le m1 target 8 nx"
  define m3 where "m3 = zero_bytes m2 page_head PAGE_SIZE"
  define m4 where "m4 = store_le m3 page_ref 8 (reusable_page_refs s)"
  define s' where "s' = s\<lparr>mem := m4, reusable_page_refs := page_ref\<rparr>"
  have run1: "push_block s page_ref ptr = Some (s\<lparr>mem := m1\<rparr>)"
    using push_block_run [OF L blk'] by (simp add: m1_def m_def nf_def)
  have nf_rng: "- 2147483648 \<le> nf + 1" "nf + 1 < 2147483648"
  proof -
    define n where "n = PAGE_SIZE div 2 ^ (nat c + 3)"
    have "n \<le> PAGE_SIZE" unfolding n_def by (rule div_le_dividend)
    then have n: "n \<le> 4096" by (simp add: PAGE_SIZE_def)
    have "nf + 1 = int n" using full by (simp add: nf_def m_def n_def)
    with n show "- 2147483648 \<le> nf + 1" "nf + 1 < 2147483648"
      by simp_all
  qed
  have nf1: "pr_num_free m1 page_ref = nf + 1"
    unfolding pr_num_free_def m1_def using nf_rng by (intro load32_store32_val) simp_all
  have next1: "pr_next m1 page_ref = nx"
    using rec_page ptr_page
    by (auto simp: pr_next_def nx_def m1_def load_store_le_other)
  have base2: "pr_freelist_base m2 page_ref = page_head"
    using rec_page ptr_page target_rec first(2)
    by (auto simp: pr_freelist_base_def m2_def m1_def load_store_le_other m_def)
  have step: "release_if_empty (s\<lparr>mem := m1\<rparr>) p c prior page_ref = Some s'"
  proof -
    have sh: "shl1 (int BASE_CLASS + c) = Some (int cs)"
      using cf(1) by (simp add: cs_def add.commute)
    have dv: "c_div (int PAGE_SIZE) (int cs) = nf + 1"
      using full by (simp add: c_div_pos cs_def zdiv_int nf_def m_def)
    have a: "load32 (s\<lparr>mem := m1\<rparr>) (page_ref + 24) = Some (nf + 1)"
      using rec nf1 by (simp add: load32_def in_heap_def pr_num_free_def)
    have b: "load64 (s\<lparr>mem := m1\<rparr>) page_ref = Some nx"
      using rec next1 by (simp add: load64_def in_heap_def pr_next_def)
    have c1: "store64 (s\<lparr>mem := m1\<rparr>) prior nx = Some (s\<lparr>mem := m2\<rparr>)" if "0 < prior"
      using that target_heap prior0
      by (auto simp: store64_def m2_def target_def prior_def in_heap_def)
    have c2: "set_pageref_head (s\<lparr>mem := m1\<rparr>) p c nx = Some (s\<lparr>mem := m2\<rparr>)" if "prior = 0"
      using that target_heap slot(1) prior0
      by (auto simp: store64_def set_pageref_head_def pageref_slot_def m2_def target_def
          in_heap_def)
    have d: "load64 (s\<lparr>mem := m2\<rparr>) (page_ref + 16) = Some page_head"
      using rec base2 by (simp add: load64_def in_heap_def pr_freelist_base_def)
    have e: "bzero (s\<lparr>mem := m2\<rparr>) page_head PAGE_SIZE = Some (s\<lparr>mem := m3\<rparr>)"
      using page by (simp add: bzero_def m3_def)
    have f: "store64 (s\<lparr>mem := m3\<rparr>) page_ref (reusable_page_refs s) = Some (s\<lparr>mem := m4\<rparr>)"
      using rec by (simp add: store64_def in_heap_def m4_def)
    show ?thesis
      unfolding release_if_empty_def
      by (simp add: a sh dv b c1 c2 d e f s'_def)
  qed
  have run: "subpage_mm_free s ptr = Some (s', 1)"
  proof -
    have h: "pageref_head s p c = Some hd"
      using slot by (simp add: pageref_head_def load64_def hd_def m_def)
    have "list_all (\<lambda>q. in_heap s q 32) (xs @ [page_ref])"
      using recs by (simp add: list_all_iff)
    with path first have loc: "locate_page_ref s page_head 0 hd = Some (prior, page_ref)"
      unfolding prior_def hd_def m_def by (intro locate_page_ref_path) simp_all
    show ?thesis
      unfolding subpage_mm_free_def
      by (simp add: ph meta h loc run1 step)
  qed
  \<comment> \<open>what is left untouched\<close>
  have pt1: "m1 y = m y" if "y < page_ref \<or> page_ref + 32 \<le> y" "y < ptr \<or> ptr + 8 \<le> y" for y
  proof -
    from that have o1: "y < page_ref + 8 \<or> page_ref + 8 + 8 \<le> y"
      and o2: "y < ptr \<or> ptr + 8 \<le> y"
      and o3: "y < page_ref + 24 \<or> page_ref + 24 + 4 \<le> y"
      by linarith+
    show ?thesis
      unfolding m1_def
      by (simp only: store_le_outside [OF o3] store_le_outside [OF o2] store_le_outside [OF o1])
  qed
  have pt: "m4 y = m y"
    if "y < page_ref \<or> page_ref + 32 \<le> y" "y < page_head \<or> page_head + PAGE_SIZE \<le> y"
       "y < target \<or> target + 8 \<le> y" for y
  proof -
    from that(2) ptr_page have "y < ptr \<or> ptr + 8 \<le> y" by linarith
    with that(1) have a: "m1 y = m y" by (rule pt1)
    have b: "m2 y = m1 y" unfolding m2_def by (rule store_le_outside) (rule that(3))
    have c: "m3 y = m2 y" unfolding m3_def by (rule zero_bytes_outside) (rule that(2))
    from that(1) have "y < page_ref \<or> page_ref + 8 \<le> y" by linarith
    then have d: "m4 y = m3 y" unfolding m4_def by (rule store_le_outside)
    from a b c d show ?thesis by simp
  qed
  have frame: "load_le m4 x k = load_le m x k"
    if "x + k \<le> page_ref \<or> page_ref + 32 \<le> x"
       "x + k \<le> page_head \<or> page_head + PAGE_SIZE \<le> x"
       "x + k \<le> target \<or> target + 8 \<le> x" for x k
  proof (rule load_le_cong)
    fix y assume "x \<le> y" "y < x + k"
    with that have "y < page_ref \<or> page_ref + 32 \<le> y"
      "y < page_head \<or> page_head + PAGE_SIZE \<le> y" "y < target \<or> target + 8 \<le> y"
      by linarith+
    then show "m4 y = m y" by (rule pt)
  qed
  have nxw: "nx < 2 ^ 64"
    using load_le_bound [of m page_ref 8] by (simp add: nx_def pr_next_def)
  have at_target: "load_le m4 target 8 = nx"
  proof -
    have "load_le m4 target 8 = load_le m2 target 8"
    proof (rule load_le_cong)
      fix y assume "target \<le> y" "y < target + 8"
      with target_rec target_page have o: "y < page_ref \<or> page_ref + 8 \<le> y"
        "y < page_head \<or> page_head + PAGE_SIZE \<le> y"
        by linarith+
      show "m4 y = m2 y"
        unfolding m4_def m3_def
        by (simp only: store_le_outside [OF o(1)] zero_bytes_outside [OF o(2)])
    qed
    then show ?thesis using nxw by (simp add: m2_def load64_store64_same)
  qed
  have head': "load_le m4 slot 8 = (if xs = [] then nx else hd)"
  proof (cases "xs = []")
    case True
    with at_target show ?thesis by (simp add: target_def)
  next
    case False
    with lastx have "slot + 8 \<le> target \<or> target + 8 \<le> slot" by (auto simp: target_def)
    with rec_slot slot(3) have "load_le m4 slot 8 = load_le m slot 8"
      by (intro frame) auto
    with False show ?thesis by (simp add: hd_def)
  qed
  have keep: "pr_next m4 q = pr_next m q" if q: "q \<in> set (butlast xs) \<union> set ys" for q
  proof -
    from q have qm: "q \<in> set (xs @ page_ref # ys)" by (auto dest: in_set_butlastD)
    with recs have a: "q + 32 \<le> page_head \<or> page_head + PAGE_SIZE \<le> q"
      "q + 32 \<le> slot \<or> slot + 8 \<le> q"
      unfolding list_all_iff by blast+
    have b: "q + 32 \<le> page_ref \<or> page_ref + 32 \<le> q"
    proof -
      from apartR have "list_all (\<lambda>x. list_all (\<lambda>r. x + 32 \<le> r \<or> r + 32 \<le> x) (page_ref # ys)) xs"
        and "list_all (\<lambda>r. page_ref + 32 \<le> r \<or> r + 32 \<le> page_ref) ys"
        unfolding records_apart_append by simp_all
      with q show ?thesis by (auto simp: list_all_iff dest: in_set_butlastD)
    qed
    have c: "q + 8 \<le> target \<or> target + 8 \<le> q"
    proof (cases "xs = []")
      case True
      with a show ?thesis by (auto simp: target_def)
    next
      case False
      from q show ?thesis
      proof
        assume "q \<in> set (butlast xs)"
        moreover from apartR have "records_apart xs"
          unfolding records_apart_append by blast
        ultimately have "q + 32 \<le> last xs \<or> last xs + 32 \<le> q"
          by (intro records_apart_last)
        with False show ?thesis by (auto simp: target_def)
      next
        assume "q \<in> set ys"
        moreover from apartR
        have "list_all (\<lambda>x. list_all (\<lambda>r. x + 32 \<le> r \<or> r + 32 \<le> x) (page_ref # ys)) xs"
          unfolding records_apart_append by blast
        moreover from False have "last xs \<in> set xs" by simp
        ultimately have "last xs + 32 \<le> q \<or> q + 32 \<le> last xs"
          by (simp add: list_all_iff)
        with False show ?thesis by (auto simp: target_def)
      qed
    qed
    from a b c show ?thesis
      unfolding pr_next_def by (intro frame) auto
  qed
  have relink: "pr_next m4 (last xs) = pr_next m page_ref" if "xs \<noteq> []"
    using that at_target by (simp add: pr_next_def target_def nx_def)
  have "pageref_path m4 (if xs = [] then pr_next m page_ref else load_le m slot 8) (xs @ ys)"
    using path keep relink by (intro pageref_path_unlink) (simp_all add: m_def)
  then have path': "pageref_path (mem s') (load_le (mem s') slot 8) (xs @ ys)"
    by (cases "xs = []") (simp_all add: s'_def head' nx_def hd_def)
  have zero: "\<forall>a. page_head \<le> a \<and> a < page_head + PAGE_SIZE \<longrightarrow> mem s' a = 0"
  proof (intro allI impI)
    fix a assume a: "page_head \<le> a \<and> a < page_head + PAGE_SIZE"
    with rec_page have o: "a < page_ref \<or> page_ref + 8 \<le> a" by linarith
    have "m4 a = m3 a" unfolding m4_def by (rule store_le_outside) (rule o)
    also have "m3 a = 0" unfolding m3_def using a by (intro zero_bytes_inside) simp_all
    finally show "mem s' a = 0" by (simp add: s'_def)
  qed
  have reus': "reusable_page_refs s' = page_ref"
    by (simp add: s'_def)
  have next': "pr_next (mem s') page_ref = reusable_page_refs s"
    using reus by (simp add: s'_def pr_next_def m4_def load64_store64_same)
  have base': "pr_freelist_base (mem s') page_ref = page_head"
  proof -
    have "load_le m4 (page_ref + 16) 8 = load_le m2 (page_ref + 16) 8"
    proof (rule load_le_cong)
      fix y assume "page_ref + 16 \<le> y" "y < page_ref + 16 + 8"
      with rec_page have o: "y < page_ref \<or> page_ref + 8 \<le> y"
        "y < page_head \<or> page_head + PAGE_SIZE \<le> y"
        by linarith+
      show "m4 y = m2 y"
        unfolding m4_def m3_def
        by (simp only: store_le_outside [OF o(1)] zero_bytes_outside [OF o(2)])
    qed
    with base2 show ?thesis by (simp add: s'_def pr_freelist_base_def)
  qed
  have again: "\<forall>p2 c2 s'' pr2. allocate_pageref s' p2 c2 = Some (s'', pr2) \<longrightarrow>
         pr2 = page_ref \<and> dseg_hi s'' = dseg_hi s'"
    using allocate_pageref_reuse [of s'] pr0 reus' by auto
  from run path' zero reus' next' base' again show ?thesis by blast
qed


theorem empty_page_goes_to_reusable_list_witness:
  "\<exists>s. do {
       (s1, r) \<leftarrow> mm_init env_example (initial_state (\<lambda>_. 0));
       (s2, p1) \<leftarrow> mm_malloc s1 0 2048;
       (s3, p2) \<leftarrow> mm_malloc s2 0 2048;
       Some (s3, p1)
     } = Some (s, 75776) \<and>
     dseg_hi s \<le> 2 ^ 64 \<and> get_page_head s 75776 = 73728 \<and> in_heap s 73728 PAGE_SIZE \<and>
     block_of_page 73728 75776 \<and> load32 s 73728 = Some 0 \<and> load32 s (73728 + 4) = Some 8 \<and>
     pageref_slot s 0 8 = 65600 \<and> in_heap s 65600 8 \<and>
     pageref_path (mem s) (load_le (mem s) 65600 8) ([73664] @ 69632 # []) \<and>
     pr_freelist_base (mem s) 73664 = 77824 \<and> pr_freelist_base (mem s) 69632 = 73728 \<and>
     records_apart ([73664] @ 69632 # []) \<and>
     in_heap s 73664 32 \<and> in_heap s 69632 32 \<and>
     pr_num_free (mem s) 69632 + 1 = int (PAGE_SIZE div 2 ^ (nat 8 + 3)) \<and>
     reusable_page_refs s = 0 \<and>
     (\<exists>s'. subpage_mm_free s 75776 = Some (s', 1) \<and>
        pageref_path (mem s') (load_le (mem s') 65600 8) [73664] \<and>
        reusable_page_refs s' = 69632 \<and> pr_freelist_base (mem s') 69632 = 73728 \<and>
        mem s' 73728 = 0 \<and> mem s' 73732 = 0)"
proof -
  have "\<exists>s. do {
       (s1, r) \<leftarrow> mm_init env_example (initial_state (\<lambda>_. 0));
       (s2, p1) \<leftarrow> mm_malloc s1 0 2048;
       (s3, p2) \<leftarrow> mm_malloc s2 0 2048;
       Some (s3, p1)
     } = Some (s, 75776) \<and>
     dseg_hi s \<le> 2 ^ 64 \<and> get_page_head s 75776 = 73728 \<and> in_heap s 73728 PAGE_SIZE \<and>
     block_of_page 73728 75776 \<and> load32 s 73728 = Some 0 \<and> load32 s (73728 + 4) = Some 8 \<and>
     pageref_slot s 0 8 = 65600 \<and> in_heap s 65600 8 \<and>
     pageref_path (mem s) (load_le (mem s) 65600 8) ([73664] @ 69632 # []) \<and>
     pr_freelist_base (mem s) 73664 = 77824 \<and> pr_freelist_base (mem s) 69632 = 73728 \<and>
     records_apart ([73664] @ 69632 # []) \<and>
     in_heap s 73664 32 \<and> in_heap s 69632 32 \<and>
     pr_num_free (mem s) 69632 + 1 = int (PAGE_SIZE div 2 ^ (nat 8 + 3)) \<and>
     reusable_page_refs s = 0"
    by (simp add: run_defs view_defs cong: run_congs)
  then obtain s where run: "do {
       (s1, r) \<leftarrow> mm_init env_example (initial_state (\<lambda>_. 0));
       (s2, p1) \<leftarrow> mm_malloc s1 0 2048;
       (s3, p2) \<leftarrow> mm_malloc s2 0 2048;
       Some (s3, p1)
     } = Some (s, 75776)"
    and hi: "dseg_hi s \<le> 2 ^ 64" and ph: "get_page_head s 75776 = 73728"
    and page: "in_heap s 73728 PAGE_SIZE" and blk: "block_of_page 73728 75776"
    and meta: "load32 s 73728 = Some 0" "load32 s (73728 + 4) = Some 8"
    and slot: "pageref_slot s 0 8 = 65600" "in_heap s 65600 8"
    and path: "pageref_path (mem s) (load_le (mem s) 65600 8) ([73664] @ 69632 # [])"
    and fb: "pr_freelist_base (mem s) 73664 = 77824" "pr_freelist_base (mem s) 69632 = 73728"
    and ap: "records_apart ([73664] @ 69632 # [])"
    and recs: "in_heap s 73664 32" "in_heap s 69632 32"
    and full: "pr_num_free (mem s) 69632 + 1 = int (PAGE_SIZE div 2 ^ (nat 8 + 3))"
    and reus: "reusable_page_refs s = 0"
    by blast
  have "\<exists>s'. subpage_mm_free s 75776 = Some (s', 1) \<and>
      pageref_path (mem s') (load_le (mem s') 65600 8) ([73664] @ []) \<and>
      (\<forall>a. 73728 \<le> a \<and> a < 73728 + PAGE_SIZE \<longrightarrow> mem s' a = 0) \<and>
      reusable_page_refs s' = 69632 \<and> pr_next (mem s') 69632 = reusable_page_refs s \<and>
      pr_freelist_base (mem s') 69632 = 73728 \<and>
      (\<forall>p2 c2 s'' pr2. allocate_pageref s' p2 c2 = Some (s'', pr2) \<longrightarrow>
         pr2 = 69632 \<and> dseg_hi s'' = dseg_hi s')"
    using hi ph page blk meta slot fb recs reus
    by (intro empty_page_goes_to_reusable_list [where p = 0 and c = 8 and slot = 65600]
          path ap full)
       (simp_all add: PAGE_SIZE_def)
  then obtain s' where r: "subpage_mm_free s 75776 = Some (s', 1)"
      "pageref_path (mem s') (load_le (mem s') 65600 8) [73664]"
      "reusable_page_refs s' = 69632" "pr_freelist_base (mem s') 69632 = 73728"
      and z: "\<forall>a. 73728 \<le> a \<and> a < 73728 + PAGE_SIZE \<longrightarrow> mem s' a = 0"
    by auto
  from z have "mem s' 73728 = 0" "mem s' 73732 = 0"
    by (simp_all add: PAGE_SIZE_def)
  with run hi ph page blk meta slot path fb ap recs full reus r show ?thesis
    by blast
qed

end
